theory Spec2Isabelle
  imports Complex_Main
begin

section \<open>The completion-time solver of \<^verbatim>\<open>repairCars.cpp\<close>\<close>

text \<open>
  The source is a class with two methods, \<^verbatim>\<open>check\<close> (the capacity predicate) and
  \<^verbatim>\<open>repairCars\<close> (the binary search over the time). Both compute on
  \<^verbatim>\<open>long long\<close> values, and \<^verbatim>\<open>check\<close> takes a square root in double precision.
  The model keeps integers as \<open>int\<close> and writes every place where C++ has no defined
  result (undefined behaviour) as an error value.
\<close>

subsection \<open>Undefined behaviour and 64-bit integers\<close>

datatype ub =
    DivByZero            \<comment> \<open>integer division by zero\<close>
  | Overflow             \<comment> \<open>signed arithmetic leaves the range of \<^verbatim>\<open>long long\<close>\<close>
  | InvalidConversion    \<comment> \<open>a double that is NaN or out of range is converted to \<^verbatim>\<open>long long\<close>\<close>
  | Uninitialised        \<comment> \<open>a variable is read that was never assigned\<close>

definition LLONG_MIN :: int where
  "LLONG_MIN = - (2 ^ 63)"

definition LLONG_MAX :: int where
  "LLONG_MAX = 2 ^ 63 - 1"

definition in_ll :: "int \<Rightarrow> bool" where
  "in_ll x = (LLONG_MIN \<le> x \<and> x \<le> LLONG_MAX)"

text \<open>The range of \<^verbatim>\<open>int\<close>, the type of \<^verbatim>\<open>cars\<close> and of the ranks.\<close>

definition INT_MIN :: int where
  "INT_MIN = - (2 ^ 31)"

definition INT_MAX :: int where
  "INT_MAX = 2 ^ 31 - 1"

text \<open>C++ integer division truncates towards zero.\<close>

definition trunc_div :: "int \<Rightarrow> int \<Rightarrow> int" where
  "trunc_div a b = sgn a * sgn b * (\<bar>a\<bar> div \<bar>b\<bar>)"

definition ll_div :: "int \<Rightarrow> int \<Rightarrow> ub + int" where
  "ll_div a b =
     (if b = 0 then Inl DivByZero
      else if in_ll (trunc_div a b) then Inr (trunc_div a b)
      else Inl Overflow)"

definition ll_add :: "int \<Rightarrow> int \<Rightarrow> ub + int" where
  "ll_add a b = (if in_ll (a + b) then Inr (a + b) else Inl Overflow)"

definition ll_sub :: "int \<Rightarrow> int \<Rightarrow> ub + int" where
  "ll_sub a b = (if in_ll (a - b) then Inr (a - b) else Inl Overflow)"

subsection \<open>Double precision: conversion, square root, truncation\<close>

text \<open>
  \<^verbatim>\<open>sqrt(time/nums[i])\<close> converts the \<^verbatim>\<open>long long\<close> quotient to a double, takes the
  IEEE 754 square root (correctly rounded, round to nearest, ties to even) and
  \<^verbatim>\<open>ll c = ...\<close> truncates the result towards zero. A finite double is a sign, a
  significand of at most 53 bits and an exponent: its value is
  \<open>(-1)^s * m * 2^e\<close>. The exponent is not bounded here: every value the program
  forms lies between \<open>2^(-52)\<close> and \<open>2^63\<close>, far inside the range of a double.
\<close>

datatype double = NaN | Finite bool nat int

fun bit_length :: "nat \<Rightarrow> nat" where
  "bit_length n = (if n = 0 then 0 else Suc (bit_length (n div 2)))"

declare bit_length.simps [simp del]

text \<open>The integer square root, by the digit recursion \<open>isqrt n = 2 * isqrt (n div 4) (+ 1)\<close>.\<close>

fun isqrt :: "nat \<Rightarrow> nat" where
  "isqrt n =
     (if n = 0 then 0
      else let r = 2 * isqrt (n div 4)
           in if (r + 1) * (r + 1) \<le> n then r + 1 else r)"

declare isqrt.simps [simp del]

text \<open>
  \<open>round53 m e\<close> rounds the exact value \<open>m * 2^e\<close> to 53 significant bits, to nearest,
  ties to even: the \<open>k\<close> low bits of \<open>m\<close> are dropped and the rest is incremented when
  the dropped part is more than half a unit, or exactly half with an odd rest.
\<close>

definition round53 :: "nat \<Rightarrow> int \<Rightarrow> nat \<times> int" where
  "round53 m e =
     (let k = bit_length m - 53;
          q = m div 2 ^ k;
          r = m mod 2 ^ k;
          h = 2 ^ (k - 1)
      in if k = 0 then (m, e)
         else if h < r \<or> (r = h \<and> odd q) then (q + 1, e + int k)
         else (q, e + int k))"

definition ll_to_double :: "int \<Rightarrow> double" where
  "ll_to_double x = (case round53 (nat \<bar>x\<bar>) 0 of (m, e) \<Rightarrow> Finite (x < 0) m e)"

text \<open>
  The correctly rounded square root of \<open>m * 2^e\<close> for \<open>m > 0\<close>: the significand is
  scaled by \<open>2^t\<close> to 105 or 106 bits, with \<open>e - t\<close> even, so that the integer square
  root \<open>f\<close> of \<open>n = m * 2^t\<close> has exactly 53 bits. \<open>nearest_sqrt n\<close> is the integer
  nearest to the square root of \<open>n\<close>: the root lies above \<open>f + 1/2\<close> exactly when
  \<open>n - f * f > f\<close> (it is never \<open>f + 1/2\<close>).
\<close>

definition nearest_sqrt :: "nat \<Rightarrow> nat" where
  "nearest_sqrt n = (let f = isqrt n in if f < n - f * f then f + 1 else f)"

definition sqrt53 :: "nat \<Rightarrow> int \<Rightarrow> nat \<times> int" where
  "sqrt53 m e =
     (let b = int (bit_length m);
          t = (if even (105 - b - e) then 105 - b else 106 - b)
      in (nearest_sqrt (m * 2 ^ nat t), (e - t) div 2))"

fun sqrt_double :: "double \<Rightarrow> double" where
  "sqrt_double NaN = NaN"
| "sqrt_double (Finite s m e) =
     (if m = 0 then Finite s 0 e
      else if s then NaN
      else case sqrt53 m e of (m', e') \<Rightarrow> Finite False m' e')"

fun double_to_ll :: "double \<Rightarrow> ub + int" where
  "double_to_ll NaN = Inl InvalidConversion"
| "double_to_ll (Finite s m e) =
     (let a = (if 0 \<le> e then int m * 2 ^ nat e else int m div 2 ^ nat (- e));
          v = (if s then - a else a)
      in if in_ll v then Inr v else Inl InvalidConversion)"

text \<open>\<^verbatim>\<open>ll c = sqrt(q)\<close> for a \<^verbatim>\<open>long long\<close> \<open>q\<close>.\<close>

definition ll_sqrt :: "int \<Rightarrow> ub + int" where
  "ll_sqrt q = double_to_ll (sqrt_double (ll_to_double q))"

subsection \<open>The capacity predicate\<close>

text \<open>
  \<^verbatim>\<open>ll c = sqrt(time/nums[i])\<close>: the capacity of one worker. \<^verbatim>\<open>nums[i]\<close> is an
  \<^verbatim>\<open>int\<close>, promoted to \<^verbatim>\<open>long long\<close> for the division.
\<close>

definition capacity :: "int \<Rightarrow> int \<Rightarrow> ub + int" where
  "capacity time r =
     (case ll_div time r of
        Inl u \<Rightarrow> Inl u
      | Inr q \<Rightarrow> ll_sqrt q)"

text \<open>
  \<^verbatim>\<open>check\<close> walks the vector from index 0 to \<^verbatim>\<open>n - 1\<close>, where \<^verbatim>\<open>int n = nums.size()\<close>;
  the vector is the list of its elements (its size fits \<^verbatim>\<open>int\<close>). \<open>req\<close> is the
  local copy of the requirement that the loop decreases.
\<close>

fun check :: "int list \<Rightarrow> int \<Rightarrow> int \<Rightarrow> ub + bool" where
  "check [] req time = Inr (req \<le> 0)"
| "check (r # nums) req time =
     (case capacity time r of
        Inl u \<Rightarrow> Inl u
      | Inr c \<Rightarrow>
          (case ll_sub req c of
             Inl u \<Rightarrow> Inl u
           | Inr req' \<Rightarrow> if req' \<le> 0 then Inr True else check nums req' time))"

subsection \<open>The search driver\<close>

text \<open>
  \<^verbatim>\<open>ll s=0,e=1e15\<close>: the literal is a double whose value is exactly \<open>10^15\<close>.
\<close>

definition TIME_CEILING :: int where
  "TIME_CEILING = 10 ^ 15"

text \<open>
  The \<^verbatim>\<open>while(s<=e)\<close> loop on the variables \<open>s\<close>, \<open>e\<close> and \<open>ans\<close>. \<open>ans\<close> is declared
  without a value: it is \<open>None\<close> until the loop assigns it, and \<^verbatim>\<open>return ans\<close> of a
  variable never assigned is undefined. \<open>cars\<close> is an \<^verbatim>\<open>int\<close>, promoted to
  \<^verbatim>\<open>long long\<close> in the call of \<^verbatim>\<open>check\<close>.
\<close>

function repair_loop :: "int list \<Rightarrow> int \<Rightarrow> int \<Rightarrow> int \<Rightarrow> int option \<Rightarrow> ub + int" where
  "repair_loop ranks cars s e ans =
     (if s \<le> e then
        (case ll_add s e of
           Inl u \<Rightarrow> Inl u
         | Inr se \<Rightarrow>
         (case ll_div se 2 of
           Inl u \<Rightarrow> Inl u
         | Inr mid \<Rightarrow>
         (case check ranks cars mid of
           Inl u \<Rightarrow> Inl u
         | Inr poss \<Rightarrow>
             if poss then
               (case ll_sub mid 1 of
                  Inl u \<Rightarrow> Inl u
                | Inr e' \<Rightarrow> repair_loop ranks cars s e' (Some mid))
             else
               (case ll_add mid 1 of
                  Inl u \<Rightarrow> Inl u
                | Inr s' \<Rightarrow> repair_loop ranks cars s' e ans))))
      else (case ans of None \<Rightarrow> Inl Uninitialised | Some a \<Rightarrow> Inr a))"
  by pat_completeness auto
termination
proof (relation "measure (\<lambda>(ranks, cars, s, e, ans). nat (e - s + 1))")
  show "wf (measure (\<lambda>(ranks, cars, s, e, ans). nat (e - s + 1)))"
    by simp
next
  fix ranks :: "int list" and cars s e :: int and ans :: "int option"
    and se mid e' :: int and poss :: bool
  assume "s \<le> e" "ll_add s e = Inr se" "ll_div se 2 = Inr mid" "ll_sub mid 1 = Inr e'"
  then show "((ranks, cars, s, e', Some mid), (ranks, cars, s, e, ans))
      \<in> measure (\<lambda>(ranks, cars, s, e, ans). nat (e - s + 1))"
    by (auto simp: ll_add_def ll_div_def ll_sub_def trunc_div_def sgn_if
        split: if_splits)
next
  fix ranks :: "int list" and cars s e :: int and ans :: "int option"
    and se mid s' :: int and poss :: bool
  assume "s \<le> e" "ll_add s e = Inr se" "ll_div se 2 = Inr mid" "ll_add mid 1 = Inr s'"
  then show "((ranks, cars, s', e, ans), (ranks, cars, s, e, ans))
      \<in> measure (\<lambda>(ranks, cars, s, e, ans). nat (e - s + 1))"
    by (auto simp: ll_add_def ll_div_def trunc_div_def sgn_if split: if_splits)
qed

declare repair_loop.simps [simp del]

definition repairCars :: "int list \<Rightarrow> int \<Rightarrow> ub + int" where
  "repairCars ranks cars = repair_loop ranks cars 0 TIME_CEILING None"

text \<open>
  The same loop with a bound on the number of times its condition is tested: \<open>None\<close>
  when the bound is used up before the loop has ended.
\<close>

fun repair_loop_fuel ::
  "nat \<Rightarrow> int list \<Rightarrow> int \<Rightarrow> int \<Rightarrow> int \<Rightarrow> int option \<Rightarrow> (ub + int) option" where
  "repair_loop_fuel 0 ranks cars s e ans = None"
| "repair_loop_fuel (Suc n) ranks cars s e ans =
     (if s \<le> e then
        (case ll_add s e of
           Inl u \<Rightarrow> Some (Inl u)
         | Inr se \<Rightarrow>
         (case ll_div se 2 of
           Inl u \<Rightarrow> Some (Inl u)
         | Inr mid \<Rightarrow>
         (case check ranks cars mid of
           Inl u \<Rightarrow> Some (Inl u)
         | Inr poss \<Rightarrow>
             if poss then
               (case ll_sub mid 1 of
                  Inl u \<Rightarrow> Some (Inl u)
                | Inr e' \<Rightarrow> repair_loop_fuel n ranks cars s e' (Some mid))
             else
               (case ll_add mid 1 of
                  Inl u \<Rightarrow> Some (Inl u)
                | Inr s' \<Rightarrow> repair_loop_fuel n ranks cars s' e ans))))
      else Some (case ans of None \<Rightarrow> Inl Uninitialised | Some a \<Rightarrow> Inr a))"

text \<open>The length of the search interval \<open>[s, e]\<close>.\<close>

definition interval_length :: "int \<Rightarrow> int \<Rightarrow> nat" where
  "interval_length s e = nat (e - s + 1)"

subsection \<open>The reference predicate\<close>

text \<open>
  The specification's capacity of a worker is the floor of the square root of
  \<open>time / rank\<close>, the division truncating; a time is feasible when the capacities of
  all workers sum to the requirement or more.
\<close>

definition worker_capacity :: "int \<Rightarrow> int \<Rightarrow> int" where
  "worker_capacity time r = int (isqrt (nat (trunc_div time r)))"

definition total_capacity :: "int list \<Rightarrow> int \<Rightarrow> int" where
  "total_capacity ranks time = sum_list (map (worker_capacity time) ranks)"

definition feasible :: "int list \<Rightarrow> int \<Rightarrow> int \<Rightarrow> bool" where
  "feasible ranks req time = (req \<le> total_capacity ranks time)"

subsection \<open>Auxiliary functions\<close>

text \<open>
  The values the double-precision steps produce, as functions on natural numbers:
  \<open>rd x\<close> is the value of the double nearest to \<open>x\<close>, \<open>tsqrt v\<close> the truncated square
  root of a double of positive integer value \<open>v\<close>, and \<open>dsqrt x\<close> the result of
  \<^verbatim>\<open>ll c = sqrt(x)\<close> for \<open>x \<ge> 0\<close>.
\<close>

definition rd :: "nat \<Rightarrow> nat" where
  "rd x = (case round53 x 0 of (m, e) \<Rightarrow> m * 2 ^ nat e)"

definition tsqrt :: "nat \<Rightarrow> nat" where
  "tsqrt v = (let p = (106 - bit_length v) div 2 in nearest_sqrt (v * 4 ^ p) div 2 ^ p)"

definition dsqrt :: "nat \<Rightarrow> nat" where
  "dsqrt x = (if x = 0 then 0 else tsqrt (rd x))"

section \<open>Integer arithmetic\<close>

lemma trunc_div_nonneg: "0 \<le> a \<Longrightarrow> 0 < b \<Longrightarrow> trunc_div a b = a div b"
  by (cases "a = 0") (simp_all add: trunc_div_def)

lemma bit_length_0 [simp]: "bit_length 0 = 0"
  by (simp add: bit_length.simps)

lemma bit_length_pos: "0 < n \<Longrightarrow> bit_length n = Suc (bit_length (n div 2))"
  by (subst bit_length.simps) simp

lemma bit_length_bounds: "0 < n \<Longrightarrow> 2 ^ (bit_length n - 1) \<le> n \<and> n < 2 ^ bit_length n"
proof (induction n rule: bit_length.induct)
  case (1 n)
  show ?case
  proof (cases "n div 2 = 0")
    case True
    with "1.prems" have "n = 1" by (simp add: div_eq_0_iff) 
    then show ?thesis by (simp add: bit_length_pos)
  next
    case False
    with "1.IH" "1.prems" have ih: "2 ^ (bit_length (n div 2) - 1) \<le> n div 2" "n div 2 < 2 ^ bit_length (n div 2)"
      by auto
    from False have pos: "0 < bit_length (n div 2)"
      by (simp add: bit_length_pos)
    then obtain j where j: "bit_length (n div 2) = Suc j"
      by (cases "bit_length (n div 2)") auto
    from ih j have "2 * 2 ^ j \<le> n" "n < 2 * 2 ^ Suc j" by auto
    with "1.prems" j show ?thesis by (simp add: bit_length_pos)
  qed
qed

lemma bit_length_unique:
  assumes "2 ^ k \<le> n" "n < 2 ^ Suc k"
  shows "bit_length n = Suc k"
proof -
  from assms have pos: "0 < n"
    by (metis less_le_trans zero_less_numeral zero_less_power)
  from bit_length_bounds [OF pos] have b: "2 ^ (bit_length n - 1) \<le> n" "n < 2 ^ bit_length n"
    by auto
  have "(2::nat) ^ k < 2 ^ bit_length n" using assms(1) b(2) by (rule le_less_trans)
  then have 1: "k < bit_length n" by simp
  have "(2::nat) ^ (bit_length n - 1) < 2 ^ Suc k" using b(1) assms(2) by (rule le_less_trans)
  then have 2: "bit_length n - 1 < Suc k" by (simp only: power_strict_increasing_iff rel_simps)
  from 1 2 show ?thesis by simp
qed

lemma bit_length_pos_iff: "0 < bit_length n \<longleftrightarrow> 0 < n"
  by (cases "n = 0") (simp_all add: bit_length_pos)

lemma bit_length_shift:
  assumes "0 < m"
  shows "bit_length (m * 2 ^ t) = bit_length m + t"
proof -
  from bit_length_bounds [OF assms] have b: "2 ^ (bit_length m - 1) \<le> m" "m < 2 ^ bit_length m"
    by auto
  from assms obtain j where j: "bit_length m = Suc j"
    using bit_length_pos_iff [of m] by (cases "bit_length m") auto
  have "2 ^ (j + t) \<le> m * 2 ^ t" using b(1) j by (simp add: power_add)
  moreover have "m * 2 ^ t < 2 ^ Suc (j + t)" using b(2) j by (simp add: power_add)
  ultimately have "bit_length (m * 2 ^ t) = Suc (j + t)" by (rule bit_length_unique)
  with j show ?thesis by simp
qed

lemma bit_length_mono: "m \<le> n \<Longrightarrow> bit_length m \<le> bit_length n"
proof (cases "m = 0")
  case True then show ?thesis by simp
next
  case False
  assume mn: "m \<le> n"
  with False have pm: "0 < m" and pn: "0 < n" by auto
  from bit_length_bounds [OF pm] bit_length_bounds [OF pn] mn
  have "(2::nat) ^ (bit_length m - 1) < 2 ^ bit_length n" by linarith
  then have "bit_length m - 1 < bit_length n" by simp
  then show ?thesis by simp
qed

lemma bit_length_less: "n < 2 ^ k \<Longrightarrow> bit_length n \<le> k"
proof (cases "n = 0")
  case True then show ?thesis by simp
next
  case False
  assume "n < 2 ^ k"
  moreover from bit_length_bounds [of n] False have "2 ^ (bit_length n - 1) \<le> n" by simp
  ultimately have "(2::nat) ^ (bit_length n - 1) < 2 ^ k" by (rule le_less_trans [rotated])
  then have "bit_length n - 1 < k" by (simp only: power_strict_increasing_iff rel_simps)
  then show ?thesis by simp
qed

lemma isqrt_0 [simp]: "isqrt 0 = 0"
  by (simp add: isqrt.simps)

lemma isqrt_bounds: "isqrt n * isqrt n \<le> n \<and> n < (isqrt n + 1) * (isqrt n + 1)"
proof (induction n rule: isqrt.induct)
  case (1 n)
  show ?case
  proof (cases "n = 0")
    case True then show ?thesis by simp
  next
    case False
    define q where "q = isqrt (n div 4)"
    from "1.IH" False have ih: "q * q \<le> n div 4" "n div 4 < (q + 1) * (q + 1)"
      by (auto simp: q_def)
    have lo: "(2 * q) * (2 * q) \<le> n"
      using ih(1) by simp
    have "n div 4 + 1 \<le> (q + 1) * (q + 1)" using ih(2) by simp
    then have "4 * (n div 4 + 1) \<le> 4 * ((q + 1) * (q + 1))" by simp
    moreover have "n < 4 * (n div 4 + 1)" by simp
    ultimately have hi: "n < (2 * q + 2) * (2 * q + 2)"
      by (simp add: algebra_simps)
    have eq: "isqrt n = (if (2 * q + 1) * (2 * q + 1) \<le> n then 2 * q + 1 else 2 * q)"
      using False by (subst isqrt.simps) (simp add: Let_def q_def)
    show ?thesis
    proof (cases "(2 * q + 1) * (2 * q + 1) \<le> n")
      case True
      with eq hi show ?thesis by (simp add: algebra_simps)
    next
      case False
      with eq lo show ?thesis by (simp add: algebra_simps)
    qed
  qed
qed

lemma square_less_imp_less: "(a::nat) * a < b * b \<Longrightarrow> a < b"
proof (rule ccontr)
  assume "a * a < b * b" and "\<not> a < b"
  then have "b * b \<le> a * a" by (simp add: mult_le_mono)
  with \<open>a * a < b * b\<close> show False by simp
qed


lemma le_isqrt_iff: "x \<le> isqrt n \<longleftrightarrow> x * x \<le> n"
proof
  assume "x \<le> isqrt n"
  then have "x * x \<le> isqrt n * isqrt n" by (simp add: mult_le_mono)
  with isqrt_bounds [of n] show "x * x \<le> n" by simp
next
  assume "x * x \<le> n"
  with isqrt_bounds [of n] have "x * x < (isqrt n + 1) * (isqrt n + 1)" by linarith
  then have "x < isqrt n + 1" by (rule square_less_imp_less)
  then show "x \<le> isqrt n" by simp
qed

lemma isqrt_mono: "m \<le> n \<Longrightarrow> isqrt m \<le> isqrt n"
  using isqrt_bounds [of m] by (simp add: le_isqrt_iff)

lemma isqrt_floor_sqrt: "int (isqrt n) = \<lfloor>sqrt (real n)\<rfloor>"
proof -
  from isqrt_bounds [of n] have b: "isqrt n * isqrt n \<le> n" "n < (isqrt n + 1) * (isqrt n + 1)"
    by auto
  have "real (isqrt n) * real (isqrt n) \<le> real n"
    using b(1) by (metis of_nat_le_iff of_nat_mult)
  then have "(real (isqrt n))\<^sup>2 \<le> real n" by (simp add: power2_eq_square)
  then have lo: "real (isqrt n) \<le> sqrt (real n)"
    by (simp add: real_le_rsqrt)
  have "real n < real (isqrt n + 1) * real (isqrt n + 1)"
    using b(2) by (metis of_nat_less_iff of_nat_mult)
  then have "real n < (real (isqrt n) + 1)\<^sup>2" by (simp add: power2_eq_square algebra_simps)
  then have hi: "sqrt (real n) < real (isqrt n) + 1"
    by (simp add: real_less_lsqrt)
  from lo hi show ?thesis by linarith
qed

section \<open>Rounding to double precision\<close>

lemma round53_small: "bit_length x \<le> 53 \<Longrightarrow> round53 x e = (x, e)"
  by (simp add: round53_def)

lemma round53_drop:
  assumes "53 < bit_length x"
  shows "\<exists>u. u \<le> 1 \<and> round53 x e = (x div 2 ^ (bit_length x - 53) + u, e + int (bit_length x - 53))
    \<and> (u = 1 \<longleftrightarrow> 2 ^ (bit_length x - 54) < x mod 2 ^ (bit_length x - 53)
         \<or> (x mod 2 ^ (bit_length x - 53) = 2 ^ (bit_length x - 54) \<and> odd (x div 2 ^ (bit_length x - 53))))"
proof -
  have k: "bit_length x - 53 \<noteq> 0" "bit_length x - 53 - 1 = bit_length x - 54"
    using assms by auto
  show ?thesis
  proof (cases "2 ^ (bit_length x - 54) < x mod 2 ^ (bit_length x - 53)
         \<or> (x mod 2 ^ (bit_length x - 53) = 2 ^ (bit_length x - 54) \<and> odd (x div 2 ^ (bit_length x - 53)))")
    case True
    then have "round53 x e = (x div 2 ^ (bit_length x - 53) + 1, e + int (bit_length x - 53))"
      unfolding round53_def Let_def k by (simp only: k if_False if_True)
    with True show ?thesis by (intro exI [of _ 1]) simp
  next
    case False
    then have "round53 x e = (x div 2 ^ (bit_length x - 53) + 0, e + int (bit_length x - 53))"
      unfolding round53_def Let_def k by (simp only: k if_False add_0_right)
    with False show ?thesis by (intro exI [of _ 0]) simp
  qed
qed

lemma quotient_bounds:
  assumes "53 < bit_length x"
  shows "2 ^ 52 \<le> x div 2 ^ (bit_length x - 53)" "x div 2 ^ (bit_length x - 53) < 2 ^ 53"
proof -
  define k where "k = bit_length x - 53"
  have bl: "bit_length x = 53 + k" using assms by (simp add: k_def)
  have pos: "0 < x" using assms bit_length_pos_iff [of x] by simp
  from bit_length_bounds [OF pos] bl have b: "2 ^ (52 + k) \<le> x" "x < 2 ^ (53 + k)"
    by auto
  have "2 ^ 52 * 2 ^ k \<le> x" using b(1) by (simp add: power_add)
  then have "2 ^ 52 \<le> x div 2 ^ k"
    by (simp add: less_eq_div_iff_mult_less_eq)
  then show "2 ^ 52 \<le> x div 2 ^ (bit_length x - 53)" by (simp add: k_def)
  have "x < 2 ^ 53 * 2 ^ k" using b(2) by (simp add: power_add)
  then have "x div 2 ^ k < 2 ^ 53"
    by (simp add: less_mult_imp_div_less)
  then show "x div 2 ^ (bit_length x - 53) < 2 ^ 53" by (simp add: k_def)
qed

lemma round53_props:
  assumes "0 < x" "round53 x 0 = (m, e)"
  shows "0 < m \<and> m \<le> 2 ^ 53 \<and> e = int (bit_length x - 53)"
proof (cases "bit_length x \<le> 53")
  case True
  with assms round53_small [of x 0] have "m = x" "e = 0" by auto
  moreover from bit_length_bounds [OF assms(1)] True have "x < 2 ^ 53"
    by (meson le_less_trans not_le power_increasing one_le_numeral less_le_trans)
  ultimately show ?thesis using assms(1) True by simp
next
  case False
  then have big: "53 < bit_length x" by simp
  from round53_drop [OF big, of 0] assms(2) obtain u where
    u: "u \<le> 1" "m = x div 2 ^ (bit_length x - 53) + u" "e = int (bit_length x - 53)"
    by auto
  with quotient_bounds [OF big] show ?thesis by simp
qed

lemma rd_small: "x < 2 ^ 53 \<Longrightarrow> rd x = x"
  using bit_length_less [of x 53] by (simp add: rd_def round53_small)

lemma rd_bounds:
  assumes "0 < x"
  shows "2 ^ (bit_length x - 1) \<le> rd x" "rd x \<le> 2 ^ bit_length x"
proof -
  have "2 ^ (bit_length x - 1) \<le> rd x \<and> rd x \<le> 2 ^ bit_length x"
  proof (cases "bit_length x \<le> 53")
    case True
    then have "rd x = x" by (simp add: rd_def round53_small)
    with bit_length_bounds [OF assms] show ?thesis by simp
  next
    case False
    then have big: "53 < bit_length x" by simp
    define k where "k = bit_length x - 53"
    define q where "q = x div 2 ^ k"
    have bl: "bit_length x = 53 + k" using big by (simp add: k_def)
    from round53_drop [OF big, of 0] obtain u where
      u: "u \<le> 1" "round53 x 0 = (q + u, int k)"
      by (auto simp: k_def q_def)
    then have rd: "rd x = (q + u) * 2 ^ k" by (simp add: rd_def)
    from quotient_bounds [OF big] have q: "2 ^ 52 \<le> q" "q < 2 ^ 53"
      by (simp_all add: q_def k_def)
    have "2 ^ 52 * 2 ^ k \<le> (q + u) * (2::nat) ^ k"
      using q(1) by (intro mult_le_mono) simp_all
    moreover have "(q + u) * (2::nat) ^ k \<le> 2 ^ 53 * 2 ^ k"
      using q(2) u(1) by (intro mult_le_mono) simp_all
    ultimately show ?thesis by (simp add: rd bl power_add)
  qed
  then show "2 ^ (bit_length x - 1) \<le> rd x" "rd x \<le> 2 ^ bit_length x" by simp_all
qed

lemma rd_0 [simp]: "rd 0 = 0"
  by (simp add: rd_def round53_small)

lemma rd_mono:
  assumes "x \<le> y"
  shows "rd x \<le> rd y"
proof (cases "x = 0")
  case True then show ?thesis by simp
next
  case False
  then have px: "0 < x" and py: "0 < y" using assms by auto
  have le: "bit_length x \<le> bit_length y" using assms by (rule bit_length_mono)
  show ?thesis
  proof (cases "bit_length x < bit_length y")
    case True
    then have "(2::nat) ^ bit_length x \<le> 2 ^ (bit_length y - 1)"
      by (intro power_increasing) simp_all
    with rd_bounds(2) [OF px] rd_bounds(1) [OF py] show ?thesis by linarith
  next
    case False
    with le have eq: "bit_length x = bit_length y" by simp
    show ?thesis
    proof (cases "bit_length x \<le> 53")
      case True
      with eq show ?thesis using assms by (simp add: rd_def round53_small)
    next
      case False
      then have bx: "53 < bit_length x" and by': "53 < bit_length y" using eq by simp_all
      define k where "k = bit_length x - 53"
      have ky: "bit_length y - 53 = k" using eq by (simp add: k_def)
      have k1: "bit_length x - 54 = k - 1" "bit_length y - 54 = k - 1"
        using eq by (simp_all add: k_def)
      from round53_drop [OF bx, of 0] obtain u where
        u: "u \<le> 1" "round53 x 0 = (x div 2 ^ k + u, int k)"
          "u = 1 \<longleftrightarrow> 2 ^ (k - 1) < x mod 2 ^ k \<or> (x mod 2 ^ k = 2 ^ (k - 1) \<and> odd (x div 2 ^ k))"
        unfolding k1 by (auto simp: k_def)
      from round53_drop [OF by', of 0] obtain w where
        w: "w \<le> 1" "round53 y 0 = (y div 2 ^ k + w, int k)"
          "w = 1 \<longleftrightarrow> 2 ^ (k - 1) < y mod 2 ^ k \<or> (y mod 2 ^ k = 2 ^ (k - 1) \<and> odd (y div 2 ^ k))"
        unfolding k1 ky by auto
      have rx: "rd x = (x div 2 ^ k + u) * 2 ^ k" using u(2) by (simp add: rd_def)
      have ry: "rd y = (y div 2 ^ k + w) * 2 ^ k" using w(2) by (simp add: rd_def)
      have qle: "x div 2 ^ k \<le> y div 2 ^ k" using assms by (rule div_le_mono)
      have "x div 2 ^ k + u \<le> y div 2 ^ k + w"
      proof (cases "x div 2 ^ k < y div 2 ^ k")
        case True
        with u(1) show ?thesis by simp
      next
        case False
        with qle have qeq: "x div 2 ^ k = y div 2 ^ k" by simp
        have "x mod 2 ^ k \<le> y mod 2 ^ k"
        proof -
          have "x = x div 2 ^ k * 2 ^ k + x mod 2 ^ k"
            by (rule div_mult_mod_eq [symmetric])
          moreover have "y = x div 2 ^ k * 2 ^ k + y mod 2 ^ k"
            unfolding qeq by (rule div_mult_mod_eq [symmetric])
          ultimately show ?thesis using assms by linarith
        qed
        then have "u = 1 \<Longrightarrow> w = 1"
          unfolding u(3) w(3) qeq by auto
        with u(1) have "u \<le> w" by (cases "u = 1") auto
        with qeq show ?thesis by simp
      qed
      then show ?thesis unfolding rx ry by (rule mult_le_mono1)
    qed
  qed
qed

section \<open>The rounded square root\<close>

lemma nearest_sqrt_bounds: "isqrt n \<le> nearest_sqrt n \<and> nearest_sqrt n \<le> isqrt n + 1"
  by (simp add: nearest_sqrt_def Let_def)

lemma nearest_sqrt_mono:
  assumes "a \<le> b"
  shows "nearest_sqrt a \<le> nearest_sqrt b"
proof (cases "isqrt a < isqrt b")
  case True
  with nearest_sqrt_bounds [of a] nearest_sqrt_bounds [of b] show ?thesis by linarith
next
  case False
  with isqrt_mono [OF assms] have eq: "isqrt a = isqrt b" by simp
  from assms have "a - isqrt b * isqrt b \<le> b - isqrt b * isqrt b" by simp
  then show ?thesis by (auto simp: nearest_sqrt_def Let_def eq)
qed

text \<open>Scaling by \<open>4^p\<close> brings a positive value of at most 106 bits to 105 or 106 bits.\<close>

lemma scaled_bounds:
  assumes "0 < v" "bit_length v \<le> 106"
  defines "p \<equiv> (106 - bit_length v) div 2"
  shows "2 ^ 104 \<le> v * 4 ^ p" "v * 4 ^ p < 2 ^ 106"
proof -
  have four: "(4::nat) ^ p = 2 ^ (2 * p)" by (simp add: power_mult)
  have pos: "0 < v * 2 ^ (2 * p)" using assms(1) by simp
  have bl: "bit_length (v * 2 ^ (2 * p)) = bit_length v + 2 * p"
    using assms(1) by (rule bit_length_shift)
  have "0 < bit_length v" using assms(1) by (simp add: bit_length_pos_iff)
  then have rng: "105 \<le> bit_length v + 2 * p" "bit_length v + 2 * p \<le> 106"
    using assms(2) unfolding p_def by presburger+
  from bit_length_bounds [OF pos] have b:
    "2 ^ (bit_length v + 2 * p - 1) \<le> v * 2 ^ (2 * p)" "v * 2 ^ (2 * p) < 2 ^ (bit_length v + 2 * p)"
    unfolding bl by auto
  have "(2::nat) ^ 104 \<le> 2 ^ (bit_length v + 2 * p - 1)"
    using rng(1) by (intro power_increasing) simp_all
  then show "2 ^ 104 \<le> v * 4 ^ p" unfolding four using b(1) by (rule le_trans)
  have "(2::nat) ^ (bit_length v + 2 * p) \<le> 2 ^ 106"
    using rng(2) by (intro power_increasing) simp_all
  with b(2) show "v * 4 ^ p < 2 ^ 106" unfolding four by (rule less_le_trans)
qed

lemma isqrt_scaled:
  assumes "2 ^ 104 \<le> n" "n < 2 ^ 106"
  shows "2 ^ 52 \<le> isqrt n" "isqrt n < 2 ^ 53"
proof -
  have "(2::nat) ^ 52 * 2 ^ 52 = 2 ^ 104" by simp
  with assms(1) show "2 ^ 52 \<le> isqrt n" by (simp only: le_isqrt_iff)
  have "(2::nat) ^ 53 * 2 ^ 53 = 2 ^ 106" by simp
  with assms(2) have "\<not> (2 ^ 53 \<le> isqrt n)" by (simp only: le_isqrt_iff not_le)
  then show "isqrt n < 2 ^ 53" by simp
qed

lemma tsqrt_bounds:
  assumes "0 < v" "bit_length v \<le> 106"
  defines "p \<equiv> (106 - bit_length v) div 2"
  shows "2 ^ (52 - p) \<le> tsqrt v" "tsqrt v \<le> 2 ^ (53 - p)"
proof -
  have "0 < bit_length v" using assms(1) by (simp add: bit_length_pos_iff)
  then have p52: "p \<le> 52" unfolding p_def by simp
  from scaled_bounds [OF assms(1,2)] have "2 ^ 104 \<le> v * 4 ^ p" "v * 4 ^ p < 2 ^ 106"
    by (simp_all add: p_def)
  from isqrt_scaled [OF this] nearest_sqrt_bounds [of "v * 4 ^ p"]
  have ns: "2 ^ 52 \<le> nearest_sqrt (v * 4 ^ p)" "nearest_sqrt (v * 4 ^ p) \<le> 2 ^ 53"
    by linarith+
  have t: "tsqrt v = nearest_sqrt (v * 4 ^ p) div 2 ^ p"
    by (simp add: tsqrt_def p_def Let_def)
  have "(2::nat) ^ (52 - p) * 2 ^ p = 2 ^ 52" using p52 by (simp flip: power_add)
  with ns(1) have "2 ^ (52 - p) * 2 ^ p \<le> nearest_sqrt (v * 4 ^ p)" by simp
  then show "2 ^ (52 - p) \<le> tsqrt v"
    unfolding t by (simp add: less_eq_div_iff_mult_less_eq)
  have "(2::nat) ^ (53 - p) * 2 ^ p = 2 ^ 53" using p52 by (simp flip: power_add)
  then have "(2::nat) ^ 53 div 2 ^ p = 2 ^ (53 - p)"
    by (metis div_mult_self_is_m zero_less_numeral zero_less_power)
  moreover have "nearest_sqrt (v * 4 ^ p) div 2 ^ p \<le> 2 ^ 53 div 2 ^ p"
    using ns(2) by (rule div_le_mono)
  ultimately show "tsqrt v \<le> 2 ^ (53 - p)" unfolding t by simp
qed

lemma tsqrt_mono:
  assumes "0 < v" "v \<le> w" "bit_length w \<le> 106"
  shows "tsqrt v \<le> tsqrt w"
proof -
  define p where "p = (106 - bit_length v) div 2"
  define p' where "p' = (106 - bit_length w) div 2"
  have pw: "0 < w" using assms by simp
  have blv: "bit_length v \<le> 106" using bit_length_mono [OF assms(2)] assms(3) by simp
  have "bit_length v \<le> bit_length w" using assms(2) by (rule bit_length_mono)
  then have pp: "p' \<le> p" unfolding p_def p'_def by simp
  have "0 < bit_length v" using assms(1) by (simp add: bit_length_pos_iff)
  then have p52: "p \<le> 52" unfolding p_def by simp
  show ?thesis
  proof (cases "p' = p")
    case True
    have "v * 4 ^ p \<le> w * 4 ^ p" using assms(2) by simp
    then have "nearest_sqrt (v * 4 ^ p) \<le> nearest_sqrt (w * 4 ^ p)"
      by (rule nearest_sqrt_mono)
    then have "nearest_sqrt (v * 4 ^ p) div 2 ^ p \<le> nearest_sqrt (w * 4 ^ p) div 2 ^ p"
      by (rule div_le_mono)
    then show ?thesis using True by (simp add: tsqrt_def Let_def p_def p'_def)
  next
    case False
    with pp have "p' < p" by simp
    then have "53 - p \<le> 52 - p'" using p52 by simp
    then have "(2::nat) ^ (53 - p) \<le> 2 ^ (52 - p')"
      by (intro power_increasing) simp_all
    with tsqrt_bounds(2) [OF assms(1) blv] tsqrt_bounds(1) [OF pw assms(3)]
    show ?thesis unfolding p_def p'_def by linarith
  qed
qed

text \<open>Below \<open>2^52\<close> rounding to nearest never reaches the next integer.\<close>

lemma tsqrt_exact:
  assumes "v < 2 ^ 52"
  shows "tsqrt v = isqrt v"
proof -
  define p where "p = (106 - bit_length v) div 2"
  define s where "s = isqrt v"
  define n where "n = v * 4 ^ p"
  define f where "f = isqrt n"
  have "bit_length v \<le> 52" using assms by (rule bit_length_less)
  then have "27 \<le> p" unfolding p_def by simp
  then have "(2::nat) ^ 27 \<le> 2 ^ p" by (intro power_increasing) simp_all
  have four: "(4::nat) ^ p = 2 ^ p * 2 ^ p"
    by (simp add: power_mult flip: power_add mult_2)
  from isqrt_bounds [of v] have sb: "s * s \<le> v" "v < (s + 1) * (s + 1)"
    by (simp_all add: s_def)
  have "\<not> 2 ^ 26 \<le> s"
  proof
    assume "2 ^ 26 \<le> s"
    then have "(2::nat) ^ 26 * 2 ^ 26 \<le> s * s" by (simp only: mult_le_mono)
    with sb(1) assms show False by simp
  qed
  then have s26: "s + 1 \<le> 2 ^ 26" by simp
  have lo: "s * 2 ^ p \<le> f"
  proof -
    have "(s * 2 ^ p) * (s * 2 ^ p) = (s * s) * 4 ^ p" by (simp add: four)
    also have "\<dots> \<le> n" unfolding n_def using sb(1) by simp
    finally show ?thesis unfolding f_def by (simp only: le_isqrt_iff)
  qed
  have v1: "v + 1 \<le> (s + 1) * (s + 1)" using sb(2) by simp
  have nhi: "n + 4 ^ p \<le> ((s + 1) * 2 ^ p) * ((s + 1) * 2 ^ p)"
  proof -
    have "n + 4 ^ p = (v + 1) * 4 ^ p" by (simp add: n_def)
    also have "\<dots> \<le> ((s + 1) * (s + 1)) * 4 ^ p" using v1 by (rule mult_le_mono1)
    also have "\<dots> = ((s + 1) * 2 ^ p) * ((s + 1) * 2 ^ p)" by (simp only: four mult_ac)
    finally show ?thesis .
  qed
  have hi: "nearest_sqrt n < (s + 1) * 2 ^ p"
  proof (rule ccontr)
    assume "\<not> nearest_sqrt n < (s + 1) * 2 ^ p"
    then have ge: "(s + 1) * 2 ^ p \<le> nearest_sqrt n" by simp
    have "\<not> (s + 1) * 2 ^ p \<le> f"
    proof
      assume "(s + 1) * 2 ^ p \<le> f"
      then have "((s + 1) * 2 ^ p) * ((s + 1) * 2 ^ p) \<le> n"
        unfolding f_def by (simp only: le_isqrt_iff)
      moreover have "0 < (4::nat) ^ p" by simp
      ultimately show False using nhi by linarith
    qed
    then have flt: "f < (s + 1) * 2 ^ p" by simp
    with ge have up: "nearest_sqrt n = f + 1" and fa: "f + 1 = (s + 1) * 2 ^ p"
      using nearest_sqrt_bounds [of n] unfolding f_def by linarith+
    from up have "f < n - f * f"
      by (auto simp: nearest_sqrt_def Let_def f_def split: if_splits)
    then have 1: "f * f + f + 1 \<le> n" by simp
    have "(f + 1) * (f + 1) = f * f + f + 1 + f" by (simp add: algebra_simps)
    with nhi fa have 2: "n + 4 ^ p \<le> f * f + f + 1 + f" by simp
    from 1 2 have "4 ^ p \<le> f" by simp
    then have "2 ^ p * 2 ^ p < (s + 1) * 2 ^ p" using fa four by simp
    then have "2 ^ p < s + 1" by (simp only: mult_less_cancel2)
    moreover have "(2::nat) ^ 26 < 2 ^ 27" by simp
    ultimately show False using s26 \<open>2 ^ 27 \<le> 2 ^ p\<close> by linarith
  qed
  have "s * 2 ^ p \<le> nearest_sqrt n"
    using lo nearest_sqrt_bounds [of n] unfolding f_def by linarith
  then have "2 ^ p * s \<le> nearest_sqrt n" by (simp only: mult.commute)
  moreover from hi have "nearest_sqrt n < 2 ^ p * Suc s" by (simp only: mult.commute Suc_eq_plus1)
  ultimately have "nearest_sqrt n div 2 ^ p = s" by (rule div_nat_eqI)
  then show ?thesis by (simp add: tsqrt_def Let_def p_def n_def s_def)
qed

lemma sqrt53_value:
  assumes "0 < m" "0 \<le> e" "bit_length m + nat e \<le> 106"
  defines "p \<equiv> (106 - bit_length (m * 2 ^ nat e)) div 2"
  shows "sqrt53 m e = (nearest_sqrt (m * 2 ^ nat e * 4 ^ p), - int p)"
proof -
  define b where "b = bit_length m"
  define E where "E = nat e"
  have e: "e = int E" using assms(2) by (simp add: E_def)
  have bl: "bit_length (m * 2 ^ E) = b + E"
    unfolding b_def using assms(1) by (rule bit_length_shift)
  have p: "p = (106 - (b + E)) div 2" unfolding p_def E_def [symmetric] bl ..
  have le: "b + E \<le> 106" using assms(3) by (simp add: b_def E_def)
  define t where "t = (if even (105 - int b - e) then 105 - int b else 106 - int b)"
  have t: "t = int (E + 2 * p)"
  proof (cases "even (105 - int b - e)")
    case True
    then have "odd (106 - (b + E))" using le unfolding e by presburger
    then have "2 * p + 1 = 106 - (b + E)" unfolding p by presburger
    with True le show ?thesis by (simp add: t_def)
  next
    case False
    then have "even (106 - (b + E))" using le unfolding e by presburger
    then have "2 * p = 106 - (b + E)" unfolding p by presburger
    with False le show ?thesis by (simp add: t_def)
  qed
  have "sqrt53 m e = (nearest_sqrt (m * 2 ^ nat t), (e - t) div 2)"
    by (simp add: sqrt53_def Let_def t_def b_def)
  moreover have "m * 2 ^ nat t = m * 2 ^ E * 4 ^ p"
  proof -
    have "nat t = E + 2 * p" unfolding t by (rule nat_int)
    moreover have "(2::nat) ^ (2 * p) = 4 ^ p" by (simp add: power_mult)
    ultimately show ?thesis by (simp add: power_add)
  qed
  moreover have "(e - t) div 2 = - int p"
    unfolding t e by simp
  ultimately show ?thesis by (simp add: E_def)
qed

lemma ll_sqrt_0 [simp]: "ll_sqrt 0 = Inr 0"
  by (simp add: ll_sqrt_def ll_to_double_def round53_small in_ll_def LLONG_MIN_def LLONG_MAX_def)

lemma ll_sqrt_neg:
  assumes "x < 0"
  shows "ll_sqrt x = Inl InvalidConversion"
proof -
  obtain m e where me: "round53 (nat \<bar>x\<bar>) 0 = (m, e)" by (cases "round53 (nat \<bar>x\<bar>) 0")
  have "0 < nat \<bar>x\<bar>" using assms by simp
  from round53_props [OF this me] have "0 < m" by simp
  with me assms show ?thesis by (simp add: ll_sqrt_def ll_to_double_def)
qed

lemma tsqrt_le:
  assumes "0 < v" "bit_length v \<le> 64"
  shows "tsqrt v \<le> 2 ^ 32"
proof -
  define p where "p = (106 - bit_length v) div 2"
  have "21 \<le> p" using assms(2) unfolding p_def by simp
  then have "53 - p \<le> 32" by simp
  then have "(2::nat) ^ (53 - p) \<le> 2 ^ 32" by (intro power_increasing) simp_all
  moreover have "tsqrt v \<le> 2 ^ (53 - p)"
    unfolding p_def using assms by (intro tsqrt_bounds) simp_all
  ultimately show ?thesis by (rule le_trans [rotated])
qed

lemma rd_bit_length:
  assumes "0 < x" "x < 2 ^ 63"
  shows "0 < rd x" "bit_length (rd x) \<le> 64"
proof -
  have bl: "bit_length x \<le> 63" using assms(2) by (rule bit_length_less)
  have "0 < (2::nat) ^ (bit_length x - 1)" by simp
  with rd_bounds(1) [OF assms(1)] show "0 < rd x" by linarith
  have "(2::nat) ^ bit_length x \<le> 2 ^ 63" using bl by (intro power_increasing) simp_all
  with rd_bounds(2) [OF assms(1)] have "rd x < 2 ^ 64" by simp
  then show "bit_length (rd x) \<le> 64" by (rule bit_length_less)
qed

lemma ll_sqrt_pos:
  assumes "0 < x" "x \<le> LLONG_MAX"
  shows "ll_sqrt x = Inr (int (tsqrt (rd (nat x))))"
proof -
  define n where "n = nat x"
  have n: "0 < n" "n < 2 ^ 63" "nat \<bar>x\<bar> = n"
    using assms by (simp_all add: n_def LLONG_MAX_def nat_less_iff)
  obtain m e where me: "round53 n 0 = (m, e)" by (cases "round53 n 0")
  from round53_props [OF n(1) me] have m: "0 < m" "m \<le> 2 ^ 53" and e: "e = int (bit_length n - 53)"
    by simp_all
  have "m < 2 ^ 54" using m(2) by simp
  then have blm: "bit_length m \<le> 54" by (rule bit_length_less)
  have "bit_length n \<le> 63" using n(2) by (rule bit_length_less)
  then have e10: "nat e \<le> 10" "0 \<le> e" by (simp_all add: e)
  have v: "rd n = m * 2 ^ nat e" by (simp add: rd_def me)
  define p where "p = (106 - bit_length (rd n)) div 2"
  have s53: "sqrt53 m e = (nearest_sqrt (rd n * 4 ^ p), - int p)"
    unfolding p_def v using m(1) e10(2) blm e10(1) by (intro sqrt53_value) simp_all
  have t: "tsqrt (rd n) = nearest_sqrt (rd n * 4 ^ p) div 2 ^ p"
    by (simp add: tsqrt_def Let_def p_def)
  have conv: "(if 0 \<le> - int p then int (nearest_sqrt (rd n * 4 ^ p)) * 2 ^ nat (- int p)
      else int (nearest_sqrt (rd n * 4 ^ p)) div 2 ^ nat (- (- int p))) = int (tsqrt (rd n))"
    by (cases "p = 0") (simp_all add: t zdiv_int)
  from rd_bit_length [OF n(1,2)] have "tsqrt (rd n) \<le> 2 ^ 32" by (rule tsqrt_le)
  then have "int (tsqrt (rd n)) \<le> 2 ^ 32"
    by (metis of_nat_le_iff of_nat_numeral of_nat_power)
  then have rng: "in_ll (int (tsqrt (rd n)))"
    by (simp add: in_ll_def LLONG_MIN_def LLONG_MAX_def)
  have "round53 (nat x) 0 = (m, e)" using me by (simp add: n_def)
  then have "ll_to_double x = Finite False m e"
    using assms(1) by (simp add: ll_to_double_def)
  then have "sqrt_double (ll_to_double x) = Finite False (nearest_sqrt (rd n * 4 ^ p)) (- int p)"
    using m(1) by (simp add: s53)
  then have "ll_sqrt x = Inr (int (tsqrt (rd n)))"
    unfolding ll_sqrt_def by (simp only: double_to_ll.simps Let_def conv rng if_True if_False)
  then show ?thesis by (simp add: n_def)
qed

lemma ll_sqrt_eq:
  assumes "0 \<le> x" "x \<le> LLONG_MAX"
  shows "ll_sqrt x = Inr (int (dsqrt (nat x)))"
proof (cases "x = 0")
  case True then show ?thesis by (simp add: dsqrt_def)
next
  case False
  with assms have "0 < x" by simp
  from ll_sqrt_pos [OF this assms(2)] False assms(1) show ?thesis by (simp add: dsqrt_def)
qed

lemma dsqrt_exact:
  assumes "x < 2 ^ 52"
  shows "dsqrt x = isqrt x"
proof (cases "x = 0")
  case True then show ?thesis by (simp add: dsqrt_def)
next
  case False
  have "x < 2 ^ 53" using assms by simp
  then have "rd x = x" by (rule rd_small)
  with False tsqrt_exact [OF assms] show ?thesis by (simp add: dsqrt_def)
qed

lemma dsqrt_mono:
  assumes "x \<le> y" "y < 2 ^ 63"
  shows "dsqrt x \<le> dsqrt y"
proof (cases "x = 0")
  case True then show ?thesis by (simp add: dsqrt_def)
next
  case False
  then have px: "0 < x" and py: "0 < y" using assms(1) by simp_all
  have xlt: "x < 2 ^ 63" using assms by simp
  have "bit_length (rd y) \<le> 106" using rd_bit_length(2) [OF py assms(2)] by simp
  with rd_bit_length(1) [OF px xlt] rd_mono [OF assms(1)]
  have "tsqrt (rd x) \<le> tsqrt (rd y)" by (rule tsqrt_mono)
  with px py show ?thesis by (simp add: dsqrt_def)
qed

lemma dsqrt_le:
  assumes "x < 2 ^ 63"
  shows "dsqrt x \<le> 2 ^ 32"
proof (cases "x = 0")
  case True then show ?thesis by (simp add: dsqrt_def)
next
  case False
  then have "0 < x" by simp
  from rd_bit_length [OF this assms] have "tsqrt (rd x) \<le> 2 ^ 32" by (rule tsqrt_le)
  with False show ?thesis by (simp add: dsqrt_def)
qed

section \<open>The rounding steps against their specification\<close>

text \<open>
  The two rounding steps of the model against their specification in IEEE 754:
  \<open>nearest_sqrt n\<close> is the integer nearest to the real square root of \<open>n\<close>, and
  \<open>round53\<close> returns a significand of at most 53 bits (or \<open>2^53\<close>) whose value is within
  half a unit in the last place of the exact value, the even one at a tie.
\<close>

lemma nearest_sqrt_nearest: "\<bar>real (nearest_sqrt n) - sqrt (real n)\<bar> < 1 / 2"
proof -
  define f where "f = isqrt n"
  from isqrt_bounds [of n] have b: "f * f \<le> n" "n < (f + 1) * (f + 1)"
    by (simp_all add: f_def)
  have "real (f * f) \<le> real n" using b(1) by (simp only: of_nat_le_iff)
  then have "(real f)\<^sup>2 \<le> real n" by (simp add: power2_eq_square)
  then have lo: "real f \<le> sqrt (real n)" by (rule real_le_rsqrt)
  have "real n < real ((f + 1) * (f + 1))" using b(2) by (simp only: of_nat_less_iff)
  then have "real n < (real f + 1)\<^sup>2" by (simp add: power2_eq_square algebra_simps)
  then have hi: "sqrt (real n) < real f + 1" by (intro real_less_lsqrt) simp_all
  show ?thesis
  proof (cases "f < n - f * f")
    case True
    then have "f * f + f + 1 \<le> n" by simp
    then have "real (f * f + f + 1) \<le> real n" by (simp only: of_nat_le_iff)
    then have "(real f + 1 / 2)\<^sup>2 < real n"
      by (simp add: power2_eq_square algebra_simps)
    then have "real f + 1 / 2 < sqrt (real n)" by (rule real_less_rsqrt)
    moreover have "nearest_sqrt n = f + 1" using True by (simp add: nearest_sqrt_def f_def)
    ultimately show ?thesis using hi by simp
  next
    case False
    then have "n \<le> f * f + f" using b(1) by simp
    then have "real n \<le> real (f * f + f)" by (simp only: of_nat_le_iff)
    then have "real n < (real f + 1 / 2)\<^sup>2"
      by (simp add: power2_eq_square algebra_simps)
    then have "sqrt (real n) < real f + 1 / 2" by (intro real_less_lsqrt) simp_all
    moreover have "nearest_sqrt n = f" using False by (simp add: nearest_sqrt_def f_def)
    ultimately show ?thesis using lo by simp
  qed
qed

lemma round53_nearest:
  assumes "round53 m e = (q, e')"
  defines "k \<equiv> bit_length m - 53"
  shows "e' = e + int k" "q \<le> 2 ^ 53" "2 * \<bar>int q * 2 ^ k - int m\<bar> \<le> 2 ^ k"
    "2 * \<bar>int q * 2 ^ k - int m\<bar> = 2 ^ k \<longrightarrow> even q"
proof -
  have "e' = e + int k \<and> q \<le> 2 ^ 53 \<and> 2 * \<bar>int q * 2 ^ k - int m\<bar> \<le> 2 ^ k
    \<and> (2 * \<bar>int q * 2 ^ k - int m\<bar> = 2 ^ k \<longrightarrow> even q)"
  proof (cases "bit_length m \<le> 53")
    case True
    then have k0: "k = 0" by (simp add: k_def)
    from True assms(1) have "q = m" "e' = e" by (simp_all add: round53_small)
    moreover have "m < 2 ^ 53"
    proof (cases "m = 0")
      case False
      with bit_length_bounds [of m] have "m < 2 ^ bit_length m" by simp
      also have "(2::nat) ^ bit_length m \<le> 2 ^ 53" using True by (intro power_increasing) simp_all
      finally show ?thesis .
    qed simp
    ultimately show ?thesis by (simp add: k0)
  next
    case False
    then have big: "53 < bit_length m" by simp
    then have kpos: "0 < k" by (simp add: k_def)
    define d where "d = m div 2 ^ k"
    define r where "r = m mod 2 ^ k"
    have m: "m = d * 2 ^ k + r" unfolding d_def r_def by (rule div_mult_mod_eq [symmetric])
    have rlt: "r < 2 ^ k" by (simp add: r_def)
    have half: "(2::nat) ^ k = 2 * 2 ^ (k - 1)" using kpos by (cases k) simp_all
    have kk: "bit_length m - 53 = k" "bit_length m - 54 = k - 1"
      by (simp_all add: k_def)
    note drop = round53_drop [OF big, of e, unfolded kk, folded d_def r_def]
    from drop obtain u where
      u': "u \<le> 1" "round53 m e = (d + u, e + int k)"
        "u = 1 \<longleftrightarrow> 2 ^ (k - 1) < r \<or> (r = 2 ^ (k - 1) \<and> odd d)"
      by blast
    from u'(2) assms(1) have "q = d + u" "e' = e + int k" by simp_all
    note u = u'(1) this u'(3)
    from quotient_bounds [OF big] have "d < 2 ^ 53" by (simp add: d_def k_def)
    then have q53: "q \<le> 2 ^ 53" using u(1,2) by simp
    define w :: int where "w = 2 ^ k"
    define h :: int where "h = 2 ^ (k - 1)"
    have int_m: "int m = int d * w + int r" unfolding w_def by (subst m) simp
    have int_half: "w = 2 * h" unfolding w_def h_def using kpos by (cases k) simp_all
    have int_r: "int r < w"
      unfolding w_def using rlt by (metis of_nat_less_iff of_nat_numeral of_nat_power)
    have cmp: "2 ^ (k - 1) < r \<longleftrightarrow> h < int r" "r = 2 ^ (k - 1) \<longleftrightarrow> int r = h"
      unfolding h_def
      by (metis of_nat_less_iff of_nat_numeral of_nat_power,
          metis of_nat_eq_iff of_nat_numeral of_nat_power)
    have "q \<le> 2 ^ 53 \<and> 2 * \<bar>int q * w - int m\<bar> \<le> w
      \<and> (2 * \<bar>int q * w - int m\<bar> = w \<longrightarrow> even q)"
    proof (cases "u = 1")
      case True
      then have up: "h < int r \<or> (int r = h \<and> odd d)" using u(4) cmp by simp
      have "int q * w - int m = w - int r"
        using True u(2) by (simp add: int_m algebra_simps)
      then have ab: "\<bar>int q * w - int m\<bar> = w - int r"
        using int_r by linarith
      from up have "h \<le> int r" by auto
      then have le: "2 * (w - int r) \<le> w" using int_half by presburger
      have "even q" if "2 * (w - int r) = w"
      proof -
        from that have "int r = h" using int_half by presburger
        with up have "odd d" by simp
        with True u(2) show "even q" by simp
      qed
      with q53 le show ?thesis unfolding ab by blast
    next
      case False
      with u(1) have u0: "u = 0" by simp
      then have nup: "\<not> h < int r" "int r = h \<longrightarrow> even d" using u(4) cmp by auto
      have "int q * w - int m = - int r"
        using u0 u(2) by (simp add: int_m)
      then have ab: "\<bar>int q * w - int m\<bar> = int r" by linarith
      have le: "2 * int r \<le> w" using nup(1) int_half by presburger
      have "even q" if "2 * int r = w"
      proof -
        from that have "int r = h" using int_half by presburger
        with nup(2) u0 u(2) show "even q" by simp
      qed
      with q53 le show ?thesis unfolding ab by blast
    qed
    with u(3) show ?thesis unfolding w_def by blast
  qed
  then show "e' = e + int k" "q \<le> 2 ^ 53" "2 * \<bar>int q * 2 ^ k - int m\<bar> \<le> 2 ^ k"
    "2 * \<bar>int q * 2 ^ k - int m\<bar> = 2 ^ k \<longrightarrow> even q"
    by blast+
qed

section \<open>The capacity predicate and the reference predicate\<close>

lemma int_div_le_self: "0 \<le> a \<Longrightarrow> 0 < b \<Longrightarrow> a div b \<le> (a::int)"
  using zdiv_mono2 [of a 1 b] by simp

lemma ll_div_pos:
  assumes "0 < r" "0 \<le> time" "time \<le> LLONG_MAX"
  shows "ll_div time r = Inr (time div r)"
proof -
  have "time div r \<le> time" using assms(1,2) by (simp add: int_div_le_self)
  moreover have "0 \<le> time div r" using assms(1,2) by (simp add: pos_imp_zdiv_nonneg_iff)
  ultimately have "in_ll (time div r)"
    using assms(3) by (simp add: in_ll_def LLONG_MIN_def LLONG_MAX_def)
  then show ?thesis
    using assms(1,2) by (simp add: ll_div_def trunc_div_nonneg)
qed

lemma capacity_pos:
  assumes "0 < r" "0 \<le> time" "time \<le> LLONG_MAX"
  shows "capacity time r = Inr (int (dsqrt (nat (time div r))))"
proof -
  have "time div r \<le> time" using assms(1,2) by (simp add: int_div_le_self)
  moreover have "0 \<le> time div r" using assms(1,2) by (simp add: pos_imp_zdiv_nonneg_iff)
  ultimately have "ll_sqrt (time div r) = Inr (int (dsqrt (nat (time div r))))"
    using assms(3) by (intro ll_sqrt_eq) simp_all
  then show ?thesis by (simp add: capacity_def ll_div_pos [OF assms])
qed

lemma nat_div_less:
  assumes "0 < r" "0 \<le> time" "time < 2 ^ k"
  shows "nat (time div r) < 2 ^ k"
proof -
  have "time div r \<le> time" using assms(1,2) by (simp add: int_div_le_self)
  with assms(3) have "time div r < 2 ^ k" by simp
  then show ?thesis by (simp add: nat_less_iff)
qed

lemma worker_capacity_pos:
  "0 < r \<Longrightarrow> 0 \<le> time \<Longrightarrow> worker_capacity time r = int (isqrt (nat (time div r)))"
  by (simp add: worker_capacity_def trunc_div_nonneg)

lemma capacity_exact:
  assumes "0 < r" "0 \<le> time" "time < 2 ^ 52"
  shows "capacity time r = Inr (worker_capacity time r)"
proof -
  have "time \<le> LLONG_MAX" using assms(3) by (simp add: LLONG_MAX_def)
  from capacity_pos [OF assms(1,2) this] dsqrt_exact [OF nat_div_less [OF assms]]
  show ?thesis by (simp add: worker_capacity_pos assms(1,2))
qed

lemma worker_capacity_nonneg: "0 \<le> worker_capacity time r"
  by (simp add: worker_capacity_def)

lemma worker_capacity_bound:
  assumes "0 < r" "0 \<le> time" "time < 2 ^ 52"
  shows "worker_capacity time r < 2 ^ 26"
proof -
  have "\<not> 2 ^ 26 \<le> isqrt (nat (time div r))"
  proof
    assume "2 ^ 26 \<le> isqrt (nat (time div r))"
    then have "(2::nat) ^ 26 * 2 ^ 26 \<le> nat (time div r)" by (simp only: le_isqrt_iff)
    with nat_div_less [OF assms] show False by simp
  qed
  then have "isqrt (nat (time div r)) < 2 ^ 26" by simp
  then have "int (isqrt (nat (time div r))) < 2 ^ 26"
    by (metis of_nat_less_iff of_nat_numeral of_nat_power)
  then show ?thesis by (simp add: worker_capacity_pos assms(1,2))
qed

lemma worker_capacity_mono:
  assumes "0 < r" "0 \<le> t" "t \<le> t'"
  shows "worker_capacity t r \<le> worker_capacity t' r"
proof -
  have "t div r \<le> t' div r" using assms(1,3) by (simp add: zdiv_mono1)
  then have "nat (t div r) \<le> nat (t' div r)" by simp
  then have "isqrt (nat (t div r)) \<le> isqrt (nat (t' div r))" by (rule isqrt_mono)
  then show ?thesis using assms by (simp add: worker_capacity_pos)
qed

lemma total_capacity_Nil [simp]: "total_capacity [] time = 0"
  by (simp add: total_capacity_def)

lemma total_capacity_Cons [simp]:
  "total_capacity (r # ranks) time = worker_capacity time r + total_capacity ranks time"
  by (simp add: total_capacity_def)

lemma total_capacity_nonneg: "0 \<le> total_capacity ranks time"
  by (induction ranks) (simp_all add: worker_capacity_nonneg)

lemma total_capacity_mono:
  assumes "\<forall>r\<in>set ranks. 0 < r" "0 \<le> t" "t \<le> t'"
  shows "total_capacity ranks t \<le> total_capacity ranks t'"
  using assms(1)
proof (induction ranks)
  case Nil
  then show ?case by simp
next
  case (Cons r ranks)
  then have "worker_capacity t r \<le> worker_capacity t' r"
    using assms(2,3) by (intro worker_capacity_mono) simp_all
  with Cons show ?case by simp
qed

lemma feasible_mono:
  assumes "\<forall>r\<in>set ranks. 0 < r" "0 \<le> t" "t \<le> t'" "feasible ranks req t"
  shows "feasible ranks req t'"
  using total_capacity_mono [OF assms(1-3)] assms(4) by (simp add: feasible_def)

text \<open>Below \<open>2^52\<close> the early-exit loop computes the reference predicate.\<close>

lemma check_feasible:
  assumes "\<forall>r\<in>set ranks. 0 < r" "0 \<le> time" "time < 2 ^ 52"
    and "LLONG_MIN + 2 ^ 26 \<le> req" "req \<le> LLONG_MAX"
  shows "check ranks req time = Inr (feasible ranks req time)"
  using assms(1,4,5)
proof (induction ranks arbitrary: req)
  case Nil
  then show ?case by (simp add: feasible_def)
next
  case (Cons r ranks)
  define c where "c = worker_capacity time r"
  have r: "0 < r" using Cons.prems(1) by simp
  have cap: "capacity time r = Inr c"
    unfolding c_def using r assms(2,3) by (rule capacity_exact)
  have c: "0 \<le> c" "c < 2 ^ 26"
    unfolding c_def using worker_capacity_nonneg worker_capacity_bound [OF r assms(2,3)]
    by simp_all
  have "in_ll (req - c)"
    using c Cons.prems(2,3) by (simp add: in_ll_def)
  then have sub: "ll_sub req c = Inr (req - c)" by (simp add: ll_sub_def)
  have tc: "feasible (r # ranks) req time = (req - c \<le> total_capacity ranks time)"
    by (auto simp: feasible_def c_def)
  show ?case
  proof (cases "req - c \<le> 0")
    case True
    then have "req - c \<le> total_capacity ranks time"
      using total_capacity_nonneg [of ranks time] by linarith
    with True show ?thesis by (simp add: cap sub tc)
  next
    case False
    then have "LLONG_MIN + 2 ^ 26 \<le> req - c"
      by (simp add: LLONG_MIN_def)
    moreover have "req - c \<le> LLONG_MAX" using c(1) Cons.prems(3) by simp
    ultimately have "check ranks (req - c) time = Inr (feasible ranks (req - c) time)"
      using Cons.prems(1) by (intro Cons.IH) simp_all
    with False show ?thesis
      unfolding tc by (simp add: cap sub feasible_def)
  qed
qed

text \<open>\<^verbatim>\<open>check\<close> is monotone in the time over the whole range of \<^verbatim>\<open>long long\<close>.\<close>

lemma check_mono_gen:
  assumes "\<forall>r\<in>set ranks. 0 < r" "0 \<le> t" "t \<le> t'" "t' \<le> LLONG_MAX"
    and "0 < req'" "req' \<le> req" "req \<le> LLONG_MAX"
    and "check ranks req t = Inr True"
  shows "check ranks req' t' = Inr True"
  using assms(1,5-8)
proof (induction ranks arbitrary: req req')
  case Nil
  then show ?case by simp
next
  case (Cons r ranks)
  have r: "0 < r" using Cons.prems(1) by simp
  define c where "c = int (dsqrt (nat (t div r)))"
  define c' where "c' = int (dsqrt (nat (t' div r)))"
  have t: "t \<le> LLONG_MAX" "0 \<le> t'" using assms(2-4) by simp_all
  have cap: "capacity t r = Inr c" "capacity t' r = Inr c'"
    unfolding c_def c'_def using r assms(2) t assms(4) by (simp_all add: capacity_pos)
  have "t div r \<le> t' div r" using r assms(3) by (simp add: zdiv_mono1)
  then have le: "nat (t div r) \<le> nat (t' div r)" by simp
  have "t' div r \<le> t'" using r t(2) by (simp add: int_div_le_self)
  then have "t' div r < 2 ^ 63" using assms(4) by (simp add: LLONG_MAX_def)
  then have lt: "nat (t' div r) < 2 ^ 63" by (simp add: nat_less_iff)
  have "dsqrt (nat (t div r)) \<le> dsqrt (nat (t' div r))" using le lt by (rule dsqrt_mono)
  then have cc: "c \<le> c'" by (simp add: c_def c'_def)
  have "dsqrt (nat (t' div r)) \<le> 2 ^ 32" using lt by (rule dsqrt_le)
  then have c'32: "c' \<le> 2 ^ 32"
    unfolding c'_def by (metis of_nat_le_iff of_nat_numeral of_nat_power)
  have c0: "0 \<le> c" by (simp add: c_def)
  have "in_ll (req - c)" "in_ll (req' - c')"
    using c0 cc c'32 Cons.prems(2-4) by (simp_all add: in_ll_def LLONG_MIN_def)
  then have sub: "ll_sub req c = Inr (req - c)" "ll_sub req' c' = Inr (req' - c')"
    by (simp_all add: ll_sub_def)
  show ?case
  proof (cases "req' - c' \<le> 0")
    case True
    then show ?thesis by (simp add: cap sub)
  next
    case False
    then have pos: "0 < req' - c'" by simp
    have le': "req' - c' \<le> req - c" using cc Cons.prems(3) by simp
    with pos have "\<not> req - c \<le> 0" by simp
    with Cons.prems(5) have "check ranks (req - c) t = Inr True"
      by (simp add: cap sub)
    moreover have "req - c \<le> LLONG_MAX" using c0 Cons.prems(4) by simp
    ultimately have "check ranks (req' - c') t' = Inr True"
      using Cons.prems(1) pos le' by (intro Cons.IH [of "req' - c'" "req - c"]) simp_all
    with False show ?thesis by (simp add: cap sub)
  qed
qed

section \<open>The binary search\<close>

lemma trunc_div_2_between:
  assumes "s \<le> e"
  shows "s \<le> trunc_div (s + e) 2" "trunc_div (s + e) 2 \<le> e"
  using assms by (auto simp: trunc_div_def sgn_if)

lemma trunc_div_2_halves:
  assumes "s \<le> e"
  shows "interval_length s (trunc_div (s + e) 2 - 1) \<le> interval_length s e div 2"
    "interval_length (trunc_div (s + e) 2 + 1) e \<le> interval_length s e div 2"
  using assms by (auto simp: trunc_div_def sgn_if interval_length_def)

lemma repair_loop_done:
  "e < s \<Longrightarrow> repair_loop ranks cars s e ans = (case ans of None \<Rightarrow> Inl Uninitialised | Some a \<Rightarrow> Inr a)"
  by (subst repair_loop.simps) simp

lemma repair_loop_step:
  assumes "0 \<le> s" "s \<le> e" "e \<le> TIME_CEILING"
    and "check ranks cars ((s + e) div 2) = Inr poss"
  shows "repair_loop ranks cars s e ans =
    (if poss then repair_loop ranks cars s ((s + e) div 2 - 1) (Some ((s + e) div 2))
     else repair_loop ranks cars ((s + e) div 2 + 1) e ans)"
proof -
  have "s \<le> (s + e) div 2" "(s + e) div 2 \<le> e" using assms(2) by simp_all
  then have rng: "in_ll (s + e)" "in_ll ((s + e) div 2)" "in_ll ((s + e) div 2 - 1)"
    "in_ll ((s + e) div 2 + 1)"
    using assms(1-3) by (simp_all add: in_ll_def LLONG_MIN_def LLONG_MAX_def TIME_CEILING_def)
  have td: "trunc_div (s + e) 2 = (s + e) div 2"
    using assms(1,2) by (intro trunc_div_nonneg) simp_all
  have "ll_add s e = Inr (s + e)" "ll_div (s + e) 2 = Inr ((s + e) div 2)"
    "ll_sub ((s + e) div 2) 1 = Inr ((s + e) div 2 - 1)"
    "ll_add ((s + e) div 2) 1 = Inr ((s + e) div 2 + 1)"
    using rng by (simp_all add: ll_add_def ll_div_def ll_sub_def td)
  then show ?thesis
    using assms(2,4) by (subst repair_loop.simps) simp
qed

lemma repair_loop_none:
  assumes "0 \<le> s" "e \<le> TIME_CEILING"
    and "\<forall>t. s \<le> t \<and> t \<le> e \<longrightarrow> check ranks cars t = Inr False"
  shows "repair_loop ranks cars s e ans = (case ans of None \<Rightarrow> Inl Uninitialised | Some a \<Rightarrow> Inr a)"
  using assms
proof (induction "interval_length s e" arbitrary: s rule: less_induct)
  case less
  show ?case
  proof (cases "s \<le> e")
    case False
    then show ?thesis by (simp add: repair_loop_done)
  next
    case True
    define mid where "mid = (s + e) div 2"
    have mid: "s \<le> mid" "mid \<le> e" using True by (simp_all add: mid_def)
    with less.prems(3) have "check ranks cars ((s + e) div 2) = Inr False" by (simp add: mid_def)
    from repair_loop_step [OF less.prems(1) True less.prems(2) this]
    have "repair_loop ranks cars s e ans = repair_loop ranks cars (mid + 1) e ans"
      by (simp add: mid_def)
    moreover have "interval_length (mid + 1) e < interval_length s e"
      using mid by (simp add: interval_length_def)
    then have "repair_loop ranks cars (mid + 1) e ans =
        (case ans of None \<Rightarrow> Inl Uninitialised | Some a \<Rightarrow> Inr a)"
      using less.prems mid by (intro less.hyps) simp_all
    ultimately show ?thesis by simp
  qed
qed

text \<open>
  When the predicate is false below \<open>T\<close> and true from \<open>T\<close> on, the search returns \<open>T\<close>.
\<close>

lemma repair_loop_least:
  assumes "0 \<le> s" "e \<le> TIME_CEILING" "s \<le> T" "T \<le> e"
    and "\<forall>t. s \<le> t \<and> t < T \<longrightarrow> check ranks cars t = Inr False"
    and "\<forall>t. T \<le> t \<and> t \<le> e \<longrightarrow> check ranks cars t = Inr True"
  shows "repair_loop ranks cars s e ans = Inr T"
  using assms
proof (induction "interval_length s e" arbitrary: s e ans rule: less_induct)
  case less
  define mid where "mid = (s + e) div 2"
  have se: "s \<le> e" using less.prems(3,4) by simp
  have mid: "s \<le> mid" "mid \<le> e" using se by (simp_all add: mid_def)
  show ?case
  proof (cases "mid < T")
    case True
    with mid less.prems(5) have "check ranks cars ((s + e) div 2) = Inr False"
      by (simp add: mid_def)
    from repair_loop_step [OF less.prems(1) se less.prems(2) this]
    have "repair_loop ranks cars s e ans = repair_loop ranks cars (mid + 1) e ans"
      by (simp add: mid_def)
    moreover have "interval_length (mid + 1) e < interval_length s e"
      using mid by (simp add: interval_length_def)
    then have "repair_loop ranks cars (mid + 1) e ans = Inr T"
      using less.prems mid True by (intro less.hyps) simp_all
    ultimately show ?thesis by simp
  next
    case False
    with mid less.prems(6) have "check ranks cars ((s + e) div 2) = Inr True"
      by (simp add: mid_def)
    from repair_loop_step [OF less.prems(1) se less.prems(2) this]
    have step: "repair_loop ranks cars s e ans = repair_loop ranks cars s (mid - 1) (Some mid)"
      by (simp add: mid_def)
    have le: "mid - 1 \<le> TIME_CEILING" using mid less.prems(2) by simp
    show ?thesis
    proof (cases "T = mid")
      case True
      with less.prems(5) have "\<forall>t. s \<le> t \<and> t \<le> mid - 1 \<longrightarrow> check ranks cars t = Inr False"
        by simp
      with less.prems(1) le have "repair_loop ranks cars s (mid - 1) (Some mid) = Inr mid"
        by (simp add: repair_loop_none)
      with step True show ?thesis by simp
    next
      case neq: False
      with False have T: "T \<le> mid - 1" by simp
      have "interval_length s (mid - 1) < interval_length s e"
        using mid by (simp add: interval_length_def)
      then have "repair_loop ranks cars s (mid - 1) (Some mid) = Inr T"
        using less.prems T le mid by (intro less.hyps) simp_all
      with step show ?thesis by simp
    qed
  qed
qed

lemma repair_loop_fuel_enough:
  "interval_length s e < 2 ^ n \<Longrightarrow>
    repair_loop_fuel (Suc n) ranks cars s e ans = Some (repair_loop ranks cars s e ans)"
proof (induction n arbitrary: s e ans)
  case 0
  then have "e < s" by (simp add: interval_length_def)
  then show ?case by (simp add: repair_loop_done)
next
  case (Suc n)
  show ?case
  proof (cases "s \<le> e")
    case False
    then show ?thesis by (simp add: repair_loop_done)
  next
    case True
    define mid where "mid = trunc_div (s + e) 2"
    from trunc_div_2_halves [OF True] Suc.prems
    have "interval_length s (mid - 1) < 2 ^ n" "interval_length (mid + 1) e < 2 ^ n"
      by (simp_all add: mid_def)
    then have ih: "\<And>a. repair_loop_fuel (Suc n) ranks cars s (mid - 1) a
        = Some (repair_loop ranks cars s (mid - 1) a)"
      "\<And>a. repair_loop_fuel (Suc n) ranks cars (mid + 1) e a
        = Some (repair_loop ranks cars (mid + 1) e a)"
      by (simp_all only: Suc.IH)
    show ?thesis
      using True
      apply (subst repair_loop.simps)
      apply (subst repair_loop_fuel.simps)
      apply (auto simp: ll_add_def ll_div_def ll_sub_def ih mid_def [symmetric]
          simp del: repair_loop_fuel.simps split: sum.splits)
      done
  qed
qed

section \<open>The search driver on valid and on invalid arguments\<close>

lemma TIME_CEILING_less: "TIME_CEILING < 2 ^ 52" "0 \<le> TIME_CEILING" "TIME_CEILING \<le> LLONG_MAX"
  by (simp_all add: TIME_CEILING_def LLONG_MAX_def)

lemma check_feasible_search:
  assumes "\<forall>r\<in>set ranks. 0 < r" "LLONG_MIN + 2 ^ 26 \<le> cars" "cars \<le> LLONG_MAX"
    and "0 \<le> t" "t \<le> TIME_CEILING"
  shows "check ranks cars t = Inr (feasible ranks cars t)"
proof -
  have "t < 2 ^ 52" using assms(5) TIME_CEILING_less(1) by simp
  with assms(1,4) show ?thesis using assms(2,3) by (rule check_feasible)
qed

lemma repairCars_threshold:
  assumes "\<forall>r\<in>set ranks. 0 < r" "LLONG_MIN + 2 ^ 26 \<le> cars" "cars \<le> LLONG_MAX"
    and "0 \<le> T" "T \<le> TIME_CEILING" "feasible ranks cars T"
    and "\<forall>t. 0 \<le> t \<and> t < T \<longrightarrow> \<not> feasible ranks cars t"
  shows "repairCars ranks cars = Inr T"
proof -
  have lo: "\<forall>t. 0 \<le> t \<and> t < T \<longrightarrow> check ranks cars t = Inr False"
    using assms(5,7) by (simp add: check_feasible_search [OF assms(1-3)])
  have hi: "\<forall>t. T \<le> t \<and> t \<le> TIME_CEILING \<longrightarrow> check ranks cars t = Inr True"
  proof (intro allI impI)
    fix t assume t: "T \<le> t \<and> t \<le> TIME_CEILING"
    with assms(4) have "0 \<le> t" by simp
    moreover from t assms(1,4,6) have "feasible ranks cars t"
      by (intro feasible_mono [of ranks T t cars]) simp_all
    ultimately show "check ranks cars t = Inr True"
      using t by (simp add: check_feasible_search [OF assms(1-3)])
  qed
  have "repair_loop ranks cars 0 TIME_CEILING None = Inr T"
    using _ _ assms(4,5) lo hi by (rule repair_loop_least) simp_all
  then show ?thesis by (simp add: repairCars_def)
qed

lemma repairCars_eqI:
  assumes "\<forall>r\<in>set ranks. 0 < r" "LLONG_MIN + 2 ^ 26 \<le> cars" "cars \<le> LLONG_MAX"
    and "0 \<le> T" "T \<le> TIME_CEILING" "feasible ranks cars T"
    and "T = 0 \<or> \<not> feasible ranks cars (T - 1)"
  shows "repairCars ranks cars = Inr T"
proof -
  have "\<forall>t. 0 \<le> t \<and> t < T \<longrightarrow> \<not> feasible ranks cars t"
  proof (intro allI impI notI)
    fix t assume t: "0 \<le> t \<and> t < T" and f: "feasible ranks cars t"
    then have "feasible ranks cars (T - 1)"
      using assms(1) by (intro feasible_mono [of ranks t "T - 1" cars]) simp_all
    with assms(7) t show False by auto
  qed
  with assms(1-6) show ?thesis by (rule repairCars_threshold)
qed

lemma least_feasible:
  assumes "feasible ranks cars hi" "0 \<le> hi"
  shows "\<exists>T. 0 \<le> T \<and> T \<le> hi \<and> feasible ranks cars T
    \<and> (\<forall>t. 0 \<le> t \<and> t < T \<longrightarrow> \<not> feasible ranks cars t)"
proof -
  define P where "P n = feasible ranks cars (int n)" for n
  define n0 where "n0 = (LEAST n. P n)"
  have "P (nat hi)" using assms by (simp add: P_def)
  then have p0: "P n0" and le: "n0 \<le> nat hi"
    unfolding n0_def by (rule LeastI, rule Least_le)
  have "\<not> feasible ranks cars t" if "0 \<le> t \<and> t < int n0" for t
  proof -
    have "nat t < n0" using that by linarith
    then have "\<not> P (nat t)" unfolding n0_def by (rule not_less_Least)
    with that show ?thesis by (simp add: P_def)
  qed
  with p0 le assms(2) show ?thesis
    by (intro exI [of _ "int n0"]) (auto simp: P_def)
qed

lemma worker_capacity_floor_sqrt:
  assumes "0 \<le> trunc_div time r"
  shows "worker_capacity time r = \<lfloor>sqrt (real_of_int (trunc_div time r))\<rfloor>"
proof -
  have "int (isqrt (nat (trunc_div time r))) = \<lfloor>sqrt (real (nat (trunc_div time r)))\<rfloor>"
    by (rule isqrt_floor_sqrt)
  moreover have "real (nat (trunc_div time r)) = real_of_int (trunc_div time r)"
    using assms by (rule of_nat_nat)
  ultimately show ?thesis by (simp only: worker_capacity_def)
qed

lemma trunc_div_bounds:
  assumes "0 < r" "0 \<le> time"
  shows "0 \<le> trunc_div time r" "trunc_div time r \<le> time"
proof -
  have td: "trunc_div time r = time div r" using assms(2,1) by (rule trunc_div_nonneg)
  have "0 \<le> time div r" using assms by (simp only: pos_imp_zdiv_nonneg_iff)
  then show "0 \<le> trunc_div time r" by (simp only: td)
  have "time div r \<le> time" using assms(2,1) by (rule int_div_le_self)
  then show "trunc_div time r \<le> time" by (simp only: td)
qed

lemma check_nonpos_req_Cons:
  assumes "0 < r" "0 \<le> time" "time \<le> LLONG_MAX" "req \<le> 0" "LLONG_MIN + 2 ^ 32 \<le> req"
  shows "check (r # ranks) req time = Inr True"
proof -
  define c where "c = int (dsqrt (nat (time div r)))"
  have cap: "capacity time r = Inr c"
    unfolding c_def using assms(1-3) by (rule capacity_pos)
  have "time div r \<le> time" using assms(1,2) by (simp add: int_div_le_self)
  then have "time div r < 2 ^ 63" using assms(3) by (simp add: LLONG_MAX_def)
  then have "nat (time div r) < 2 ^ 63" by (simp add: nat_less_iff)
  then have "dsqrt (nat (time div r)) \<le> 2 ^ 32" by (rule dsqrt_le)
  then have "c \<le> 2 ^ 32"
    unfolding c_def by (metis of_nat_le_iff of_nat_numeral of_nat_power)
  moreover have "0 \<le> c" by (simp add: c_def)
  ultimately have "in_ll (req - c)" "req - c \<le> 0"
    using assms(4,5) by (simp_all add: in_ll_def LLONG_MIN_def LLONG_MAX_def)
  then show ?thesis by (simp add: cap ll_sub_def)
qed

lemma repairCars_all_true:
  assumes "\<forall>t. 0 \<le> t \<and> t \<le> TIME_CEILING \<longrightarrow> check ranks cars t = Inr True"
  shows "repairCars ranks cars = Inr 0"
proof -
  have "repair_loop ranks cars 0 TIME_CEILING None = Inr 0"
    using _ _ _ TIME_CEILING_less(2) _ assms by (rule repair_loop_least) auto
  then show ?thesis by (simp add: repairCars_def)
qed

lemma repairCars_nonpos_Cons:
  assumes "0 < r" "cars \<le> 0" "INT_MIN \<le> cars"
  shows "repairCars (r # ranks) cars = Inr 0"
proof (rule repairCars_all_true, intro allI impI)
  fix t assume "0 \<le> t \<and> t \<le> TIME_CEILING"
  then have "0 \<le> t" "t \<le> LLONG_MAX" using TIME_CEILING_less(3) by simp_all
  moreover have "LLONG_MIN + 2 ^ 32 \<le> cars"
    using assms(3) by (simp add: INT_MIN_def LLONG_MIN_def)
  ultimately show "check (r # ranks) cars t = Inr True"
    using assms(1,2) by (intro check_nonpos_req_Cons) simp_all
qed

lemma repairCars_nonpos_Nil:
  assumes "cars \<le> 0"
  shows "repairCars [] cars = Inr 0"
proof (rule repairCars_all_true, intro allI impI)
  fix t :: int
  show "check [] cars t = Inr True" using assms by simp
qed

lemma repairCars_Nil_pos: "0 < cars \<Longrightarrow> repairCars [] cars = Inl Uninitialised"
  unfolding repairCars_def
  using repair_loop_none [of 0 TIME_CEILING "[]" cars None] by simp

lemma first_mid:
  "ll_add 0 TIME_CEILING = Inr TIME_CEILING" "ll_div TIME_CEILING 2 = Inr 500000000000000"
  by (simp_all add: ll_add_def ll_div_def trunc_div_def in_ll_def LLONG_MIN_def LLONG_MAX_def
      TIME_CEILING_def)

lemma repairCars_first_check:
  assumes "check ranks cars 500000000000000 = Inl u"
  shows "repairCars ranks cars = Inl u"
  unfolding repairCars_def
  by (subst repair_loop.simps) (simp add: first_mid assms TIME_CEILING_less(2))

lemma repairCars_zero_rank: "repairCars (0 # ranks) cars = Inl DivByZero"
  by (rule repairCars_first_check) (simp add: capacity_def ll_div_def)

lemma repairCars_negative_rank:
  assumes "r < 0" "INT_MIN \<le> r"
  shows "repairCars (r # ranks) cars = Inl InvalidConversion"
proof (rule repairCars_first_check)
  define q where "q = 500000000000000 div (- r)"
  have td: "trunc_div 500000000000000 r = - q"
    using assms(1) by (simp add: trunc_div_def q_def)
  have "- r \<le> 2 ^ 31" using assms(2) by (simp add: INT_MIN_def)
  then have "500000000000000 div (2 ^ 31) \<le> q"
    unfolding q_def using assms(1) by (intro zdiv_mono2) simp_all
  then have qpos: "0 < q" by simp
  have "q \<le> 500000000000000"
    unfolding q_def using assms(1) by (intro int_div_le_self) simp_all
  then have "in_ll (- q)" using qpos by (simp add: in_ll_def LLONG_MIN_def LLONG_MAX_def)
  then have "ll_div 500000000000000 r = Inr (- q)"
    using assms(1) by (simp add: ll_div_def td)
  moreover have "ll_sqrt (- q) = Inl InvalidConversion"
    using qpos by (intro ll_sqrt_neg) simp
  ultimately show "check (r # ranks) cars 500000000000000 = Inl InvalidConversion"
    by (simp add: capacity_def)
qed

text \<open>
  A non-positive rank behind the first one is not detected either, and need not lead to
  an undefined result: the second capacity is only computed at the time 0.
\<close>

lemma repairCars_later_negative_rank: "repairCars [1, - 5] 1 = Inr 1"
proof -
  have lo: "check [1, - 5] 1 0 = Inr False"
  proof -
    have "worker_capacity 0 1 = 0" by (simp add: worker_capacity_def trunc_div_def)
    moreover have "capacity 0 1 = Inr (worker_capacity 0 1)" by (rule capacity_exact) simp_all
    ultimately have c1: "capacity 0 1 = Inr 0" by simp
    have c2: "capacity 0 (- 5) = Inr 0"
      by (simp add: capacity_def ll_div_def trunc_div_def in_ll_def LLONG_MIN_def LLONG_MAX_def)
    have sub: "ll_sub 1 0 = Inr 1"
      by (simp add: ll_sub_def in_ll_def LLONG_MIN_def LLONG_MAX_def)
    show ?thesis by (simp add: c1 c2 sub)
  qed
  have hi: "check [1, - 5] 1 t = Inr True" if t: "1 \<le> t \<and> t \<le> TIME_CEILING" for t
  proof -
    define c where "c = worker_capacity t 1"
    have t0: "0 \<le> t" "t < 2 ^ 52" using t TIME_CEILING_less(1) by simp_all
    have cap: "capacity t 1 = Inr c"
      unfolding c_def using _ t0 by (rule capacity_exact) simp
    have "1 * 1 \<le> nat t" using t by linarith
    then have "1 \<le> isqrt (nat t)" by (simp only: le_isqrt_iff)
    then have c1: "1 \<le> c"
      using t0(1) by (simp add: c_def worker_capacity_pos)
    have "c < 2 ^ 26" unfolding c_def using _ t0 by (rule worker_capacity_bound) simp
    then have "in_ll (1 - c)" using c1 by (simp add: in_ll_def LLONG_MIN_def LLONG_MAX_def)
    then have "ll_sub 1 c = Inr (1 - c)" by (simp add: ll_sub_def)
    with c1 show ?thesis by (simp add: cap)
  qed
  have "repair_loop [1, - 5] 1 0 TIME_CEILING None = Inr 1"
  proof (rule repair_loop_least)
    show "\<forall>t. 0 \<le> t \<and> t < 1 \<longrightarrow> check [1, - 5] 1 t = Inr False"
    proof (intro allI impI)
      fix t :: int assume "0 \<le> t \<and> t < 1"
      then have "t = 0" by simp
      with lo show "check [1, - 5] 1 t = Inr False" by simp
    qed
    show "\<forall>t. 1 \<le> t \<and> t \<le> TIME_CEILING \<longrightarrow> check [1, - 5] 1 t = Inr True"
      using hi by blast
  qed (simp_all add: TIME_CEILING_def)
  then show ?thesis by (simp add: repairCars_def)
qed

section \<open>Evaluation on concrete inputs\<close>

lemma check_eval:
  assumes "\<forall>r\<in>set ranks. 0 < r" "0 \<le> req" "req \<le> INT_MAX" "0 \<le> t" "t \<le> TIME_CEILING"
  shows "check ranks req t = Inr (feasible ranks req t)"
  using assms by (intro check_feasible_search) (simp_all add: LLONG_MIN_def LLONG_MAX_def INT_MAX_def)






section \<open>The claims\<close>

text \<open>
  \<^bold>\<open>C1\<close> (threshold correctness). For a non-empty list of positive ranks and a positive
  requirement, within bounds that make the capacity predicate true at the ceiling
  \<open>10^15\<close>, \<open>repairCars\<close> returns a time \<open>T\<close> at which \<open>check\<close> is true, the smallest one:
  \<open>check\<close> is false at \<open>T - 1\<close> when \<open>T > 0\<close>, and at every time from 0 to \<open>T - 1\<close>.
\<close>

theorem repairCars_minimal_time:
  assumes "ranks \<noteq> []" "\<forall>r\<in>set ranks. 0 < r" "0 < cars" "cars \<le> INT_MAX"
    and "check ranks cars TIME_CEILING = Inr True"
  shows "\<exists>T. repairCars ranks cars = Inr T \<and> 0 \<le> T \<and> T \<le> TIME_CEILING
    \<and> check ranks cars T = Inr True
    \<and> (0 < T \<longrightarrow> check ranks cars (T - 1) = Inr False)
    \<and> (\<forall>t. 0 \<le> t \<and> t < T \<longrightarrow> check ranks cars t = Inr False)"
proof -
  have cars: "LLONG_MIN + 2 ^ 26 \<le> cars" "cars \<le> LLONG_MAX"
    using assms(3,4) by (simp_all add: LLONG_MIN_def LLONG_MAX_def INT_MAX_def)
  note chk = check_feasible_search [OF assms(2) cars]
  have "feasible ranks cars TIME_CEILING"
    using assms(5) chk [of TIME_CEILING] TIME_CEILING_less(2) by simp
  from least_feasible [OF this TIME_CEILING_less(2)] obtain T where
    T: "0 \<le> T" "T \<le> TIME_CEILING" "feasible ranks cars T"
      "\<forall>t. 0 \<le> t \<and> t < T \<longrightarrow> \<not> feasible ranks cars t"
    by blast
  have "repairCars ranks cars = Inr T"
    using assms(2) cars T by (rule repairCars_threshold)
  moreover have "check ranks cars T = Inr True"
    using T(1-3) by (simp add: chk)
  moreover have low: "\<forall>t. 0 \<le> t \<and> t < T \<longrightarrow> check ranks cars t = Inr False"
    using T(2,4) by (simp add: chk)
  moreover from low have "0 < T \<longrightarrow> check ranks cars (T - 1) = Inr False"
    by simp
  ultimately show ?thesis using T(1,2) by blast
qed

theorem repairCars_minimal_time_witness:
  "repairCars [2] 3 = Inr 18 \<and> check [2] 3 18 = Inr True \<and> check [2] 3 17 = Inr False"
proof -
  have pos: "\<forall>r\<in>set [2::int]. 0 < r" by simp
  have "trunc_div TIME_CEILING 2 = 500000000000000"
    by (simp add: trunc_div_def TIME_CEILING_def)
  moreover have "3 \<le> isqrt 500000000000000"
    by (simp only: le_isqrt_iff)
  then have "3 \<le> int (isqrt 500000000000000)" by linarith
  ultimately have "feasible [2] 3 TIME_CEILING"
    by (simp add: feasible_def worker_capacity_def)
  then have ceil: "check [2] 3 TIME_CEILING = Inr True"
    using check_eval [OF pos, of 3 TIME_CEILING] by (simp add: INT_MAX_def TIME_CEILING_def)
  have "feasible [2] 3 18" by code_simp
  then have c18: "check [2] 3 18 = Inr True"
    using check_eval [OF pos, of 3 18] by (simp add: INT_MAX_def TIME_CEILING_def)
  have "\<not> feasible [2] 3 17" by code_simp
  then have c17: "check [2] 3 17 = Inr False"
    using check_eval [OF pos, of 3 17] by (simp add: INT_MAX_def TIME_CEILING_def)
  have "[2] \<noteq> ([]::int list)" "\<forall>r\<in>set [2::int]. 0 < r" "(0::int) < 3" "3 \<le> INT_MAX"
    by (simp_all add: INT_MAX_def)
  from repairCars_minimal_time [OF this ceil] obtain T where
    T: "repairCars [2] 3 = Inr T" "0 \<le> T" "check [2] 3 T = Inr True"
      "\<forall>t. 0 \<le> t \<and> t < T \<longrightarrow> check [2] 3 t = Inr False"
    by blast
  have "\<not> 18 < T" using T(4) c18 by auto
  moreover have "\<not> T \<le> 17"
  proof
    assume "T \<le> 17"
    with T(2,3) have "check [2] 3 17 = Inr True"
      by (intro check_mono_gen [of "[2]" T 17 3 3]) (simp_all add: LLONG_MAX_def)
    with c17 show False by simp
  qed
  ultimately have "T = 18" by simp
  with T(1) c18 c17 show ?thesis by simp
qed

text \<open>
  \<^bold>\<open>C2\<close> (monotonicity). For positive ranks and a positive requirement, \<open>check\<close> true at a
  time \<open>t \<ge> 0\<close> stays true at every later time \<open>t'\<close>, over the whole range of
  \<^verbatim>\<open>long long\<close> (where the quotient is rounded when it is converted to double).
\<close>

theorem check_monotone_in_time:
  assumes "\<forall>r\<in>set ranks. 0 < r" "0 < req" "req \<le> LLONG_MAX"
    and "0 \<le> t" "t \<le> t'" "t' \<le> LLONG_MAX"
    and "check ranks req t = Inr True"
  shows "check ranks req t' = Inr True"
  using assms(1,4,5,6,2) order_refl assms(3,7) by (rule check_mono_gen)

theorem check_monotone_in_time_witness:
  "check [4, 2, 3, 1] 10 16 = Inr True \<and> check [4, 2, 3, 1] 10 (2 ^ 62 - 1) = Inr True"
proof -
  have pos: "\<forall>r\<in>set [4, 2, 3, 1::int]. 0 < r" by simp
  have "feasible [4, 2, 3, 1] 10 16" by code_simp
  then have h: "check [4, 2, 3, 1] 10 16 = Inr True"
    using check_eval [OF pos, of 10 16] by (simp add: INT_MAX_def TIME_CEILING_def)
  have "(0::int) < 10" "10 \<le> LLONG_MAX"
    "(0::int) \<le> 16" "(16::int) \<le> 2 ^ 62 - 1" "2 ^ 62 - 1 \<le> LLONG_MAX"
    by (simp_all add: LLONG_MAX_def)
  from check_monotone_in_time [OF pos this h] h show ?thesis by simp
qed

text \<open>
  \<^bold>\<open>C3\<close> (the capacity of one worker). For a rank \<open>r \<ge> 1\<close> and a time in \<open>[0, 10^15]\<close>,
  the capacity \<^verbatim>\<open>ll c = sqrt(time/nums[i])\<close> is the floor of the real square root of the
  truncated quotient. Nothing overflows: the division is defined and its quotient lies
  in \<open>[0, 10^15]\<close>, the conversion of the quotient to double is exact, and the result
  lies in \<open>[0, 31622776]\<close>.
\<close>

theorem capacity_exact_floor_sqrt:
  assumes "1 \<le> r" "0 \<le> time" "time \<le> 10 ^ 15"
  shows "capacity time r = Inr \<lfloor>sqrt (real_of_int (trunc_div time r))\<rfloor>
    \<and> trunc_div time r = time div r
    \<and> ll_div time r = Inr (trunc_div time r)
    \<and> 0 \<le> trunc_div time r \<and> trunc_div time r \<le> 10 ^ 15
    \<and> ll_to_double (trunc_div time r) = Finite False (nat (trunc_div time r)) 0
    \<and> 0 \<le> \<lfloor>sqrt (real_of_int (trunc_div time r))\<rfloor>
    \<and> \<lfloor>sqrt (real_of_int (trunc_div time r))\<rfloor> \<le> 31622776
    \<and> in_ll (trunc_div time r) \<and> in_ll \<lfloor>sqrt (real_of_int (trunc_div time r))\<rfloor>"
proof -
  define q where "q = trunc_div time r"
  define c where "c = \<lfloor>sqrt (real_of_int q)\<rfloor>"
  have r: "0 < r" using assms(1) by simp
  have t52: "time < 2 ^ 52" using assms(3) by simp
  have q: "0 \<le> q" "q \<le> time" unfolding q_def using r assms(2) by (rule trunc_div_bounds)+
  have td: "q = time div r" unfolding q_def using assms(2) r by (rule trunc_div_nonneg)
  have wc: "worker_capacity time r = c"
    unfolding c_def q_def using q(1) unfolding q_def by (rule worker_capacity_floor_sqrt)
  have cap: "capacity time r = Inr c"
    using capacity_exact [OF r assms(2) t52] by (simp only: wc)
  have "time \<le> LLONG_MAX" using assms(3) by (simp add: LLONG_MAX_def)
  from ll_div_pos [OF r assms(2) this] have div: "ll_div time r = Inr q"
    by (simp only: td)
  have c0: "0 \<le> c" using worker_capacity_nonneg [of time r] by (simp only: wc)
  have "\<not> 31622777 \<le> isqrt (nat q)"
  proof
    assume "31622777 \<le> isqrt (nat q)"
    then have "(31622777::nat) * 31622777 \<le> nat q" by (simp only: le_isqrt_iff)
    then have "(31622777::int) * 31622777 \<le> q" by linarith
    with q(2) assms(3) show False by simp
  qed
  then have "isqrt (nat q) \<le> 31622776" by simp
  then have "int (isqrt (nat q)) \<le> 31622776" by linarith
  then have c1: "c \<le> 31622776"
    using wc by (simp add: worker_capacity_def q_def)
  have "nat q < 2 ^ 53" using q assms(3) by (simp add: nat_less_iff)
  then have "bit_length (nat q) \<le> 53" by (rule bit_length_less)
  then have dbl: "ll_to_double q = Finite False (nat q) 0"
    using q(1) by (simp add: ll_to_double_def round53_small)
  have q15: "q \<le> 10 ^ 15" using q(2) assms(3) by simp
  have rng: "in_ll q" "in_ll c"
    using q(1) q15 c0 c1 by (simp_all add: in_ll_def LLONG_MIN_def LLONG_MAX_def)
  from cap td div q(1) q15 dbl c0 c1 rng show ?thesis
    unfolding c_def q_def by (intro conjI)
qed

theorem capacity_exact_floor_sqrt_witness:
  "capacity 16 3 = Inr 2 \<and> \<lfloor>sqrt (real_of_int (trunc_div 16 3))\<rfloor> = 2 \<and> trunc_div 16 3 = 5"
proof -
  have w: "worker_capacity 16 3 = 2" by code_simp
  have "capacity 16 3 = Inr (worker_capacity 16 3)" by (rule capacity_exact) simp_all
  then have e: "capacity 16 3 = Inr 2" by (simp only: w)
  have "(1::int) \<le> 3" "(0::int) \<le> 16" "(16::int) \<le> 10 ^ 15" by simp_all
  note th = capacity_exact_floor_sqrt [OF this]
  have a: "capacity 16 3 = Inr \<lfloor>sqrt (real_of_int (trunc_div 16 3))\<rfloor>"
    using th by (rule conjunct1)
  have b: "trunc_div 16 3 = 16 div 3"
    using th by (rule conjunct1 [OF conjunct2])
  from a have "\<lfloor>sqrt (real_of_int (trunc_div 16 3))\<rfloor> = 2" by (simp only: e sum.inject)
  moreover from b have "trunc_div 16 3 = 5" by simp
  ultimately show ?thesis using e by (intro conjI)
qed




text \<open>
  \<^bold>\<open>C5\<close> (argument validation). As stated the claim fails: \<open>repairCars\<close> checks nothing
  before the search, and with an empty rank list or a non-positive requirement it returns
  the time 0.
\<close>

theorem repairCars_returns_on_invalid_arguments:
  "repairCars [] 0 = Inr 0 \<and> repairCars [3] (- 5) = Inr 0"
proof -
  have "repairCars [] 0 = Inr 0" by (rule repairCars_nonpos_Nil) simp
  moreover have "repairCars [3] (- 5) = Inr 0"
    by (rule repairCars_nonpos_Cons) (simp_all add: INT_MIN_def)
  ultimately show ?thesis by (rule conjI)
qed

text \<open>
  \<^bold>\<open>C5\<close>, amended. \<open>repairCars\<close> does not validate its arguments and has no failure of
  its own to report. With a non-positive requirement and a rank list that is empty or
  starts with a positive rank it returns 0. With an empty rank list and a positive
  requirement no time is feasible and it returns the variable \<^verbatim>\<open>ans\<close> that was never
  assigned. With a first rank 0 the first call of \<open>check\<close> divides by zero, and with a
  negative first rank (an \<^verbatim>\<open>int\<close>) it converts the square root of a negative number
  (a NaN) to an integer. A non-positive rank behind the first one is not detected
  either, and the result can be a time: for the ranks 1, -5 and the requirement 1 it
  is 1.
\<close>

theorem repairCars_no_validation:
  "(cars \<le> 0 \<longrightarrow> repairCars [] cars = Inr 0)
    \<and> (0 < cars \<longrightarrow> repairCars [] cars = Inl Uninitialised)
    \<and> (0 < r \<and> INT_MIN \<le> cars \<and> cars \<le> 0 \<longrightarrow> repairCars (r # ranks) cars = Inr 0)
    \<and> repairCars (0 # ranks) cars = Inl DivByZero
    \<and> (r < 0 \<and> INT_MIN \<le> r \<longrightarrow> repairCars (r # ranks) cars = Inl InvalidConversion)
    \<and> repairCars [1, - 5] 1 = Inr 1"
  by (simp add: repairCars_nonpos_Nil repairCars_Nil_pos repairCars_nonpos_Cons
      repairCars_zero_rank repairCars_negative_rank repairCars_later_negative_rank)

theorem repairCars_no_validation_witness:
  "repairCars [] (- 1) = Inr 0 \<and> repairCars [] 1 = Inl Uninitialised
    \<and> repairCars [3, 0] (- 1) = Inr 0 \<and> repairCars [0, 3] 1 = Inl DivByZero
    \<and> repairCars [- 2, 3] 1 = Inl InvalidConversion \<and> repairCars [1, - 5] 1 = Inr 1"
  using repairCars_no_validation [of "- 1" 3 "[0]"] repairCars_no_validation [of 1 "- 2" "[3]"]
  by (simp add: INT_MIN_def)

text \<open>
  \<^bold>\<open>C6\<close> (regression case). For the ranks 4, 2, 3, 1 and the requirement 10,
  \<open>repairCars\<close> returns 16; the floors of the square roots of 16/4, 16/2, 16/3 and 16/1
  sum to 10, those at time 15 to 8.
\<close>

theorem repairCars_example_4_2_3_1:
  "repairCars [4, 2, 3, 1] 10 = Inr 16
    \<and> total_capacity [4, 2, 3, 1] 16 = 10 \<and> total_capacity [4, 2, 3, 1] 15 = 8
    \<and> \<lfloor>sqrt (real_of_int (16 div 4))\<rfloor> + \<lfloor>sqrt (real_of_int (16 div 2))\<rfloor>
      + \<lfloor>sqrt (real_of_int (16 div 3))\<rfloor> + \<lfloor>sqrt (real_of_int (16 div 1))\<rfloor> = 10
    \<and> \<lfloor>sqrt (real_of_int (15 div 4))\<rfloor> + \<lfloor>sqrt (real_of_int (15 div 2))\<rfloor>
      + \<lfloor>sqrt (real_of_int (15 div 3))\<rfloor> + \<lfloor>sqrt (real_of_int (15 div 1))\<rfloor> < 10"
proof -
  have pos: "\<forall>r\<in>set [4, 2, 3, 1::int]. 0 < r" by simp
  have t16: "total_capacity [4, 2, 3, 1] 16 = 10" by code_simp
  have t15: "total_capacity [4, 2, 3, 1] 15 = 8" by code_simp
  have f16: "feasible [4, 2, 3, 1] 10 16" unfolding feasible_def t16 by simp
  have f15: "\<not> feasible [4, 2, 3, 1] 10 15" unfolding feasible_def t15 by simp
  have res: "repairCars [4, 2, 3, 1] 10 = Inr 16"
    using pos by (rule repairCars_eqI)
      (simp_all add: f16 f15 LLONG_MIN_def LLONG_MAX_def TIME_CEILING_def)
  have fl: "\<lfloor>sqrt (numeral k :: real)\<rfloor> = int (isqrt (numeral k))" for k
    using isqrt_floor_sqrt [of "numeral k"] by simp
  have sq: "isqrt 3 = 1" "isqrt 4 = 2" "isqrt 5 = 2" "isqrt 7 = 2" "isqrt 8 = 2"
    "isqrt 15 = 3" "isqrt 16 = 4"
    by code_simp+
  have sums: "\<lfloor>sqrt (real_of_int (16 div 4))\<rfloor> + \<lfloor>sqrt (real_of_int (16 div 2))\<rfloor>
      + \<lfloor>sqrt (real_of_int (16 div 3))\<rfloor> + \<lfloor>sqrt (real_of_int (16 div 1))\<rfloor> = 10"
    "\<lfloor>sqrt (real_of_int (15 div 4))\<rfloor> + \<lfloor>sqrt (real_of_int (15 div 2))\<rfloor>
      + \<lfloor>sqrt (real_of_int (15 div 3))\<rfloor> + \<lfloor>sqrt (real_of_int (15 div 1))\<rfloor> < 10"
    by (simp_all add: fl sq)
  from res t16 t15 sums show ?thesis by (intro conjI)
qed

text \<open>
  \<^bold>\<open>C7\<close> (two more cases). One worker of rank 1 and the requirement 4 give 16; the ranks
  5, 1, 8 and the requirement 6 give 16.
\<close>

theorem repairCars_examples_16:
  "repairCars [1] 4 = Inr 16 \<and> repairCars [5, 1, 8] 6 = Inr 16"
proof -
  have a16: "total_capacity [1] 16 = 4" and a15: "total_capacity [1] 15 = 3" by code_simp+
  have b16: "total_capacity [5, 1, 8] 16 = 6" and b15: "total_capacity [5, 1, 8] 15 = 5"
    by code_simp+
  have fa: "feasible [1] 4 16" "\<not> feasible [1] 4 15"
    unfolding feasible_def a16 a15 by simp_all
  have fb: "feasible [5, 1, 8] 6 16" "\<not> feasible [5, 1, 8] 6 15"
    unfolding feasible_def b16 b15 by simp_all
  have "\<forall>r\<in>set [1::int]. 0 < r" by simp
  then have "repairCars [1] 4 = Inr 16"
    by (rule repairCars_eqI)
      (simp_all add: fa LLONG_MIN_def LLONG_MAX_def TIME_CEILING_def)
  moreover have "\<forall>r\<in>set [5, 1, 8::int]. 0 < r" by simp
  then have "repairCars [5, 1, 8] 6 = Inr 16"
    by (rule repairCars_eqI)
      (simp_all add: fb LLONG_MIN_def LLONG_MAX_def TIME_CEILING_def)
  ultimately show ?thesis by (rule conjI)
qed



text \<open>
  \<^bold>\<open>C9\<close> (termination). While \<open>s \<le> e\<close> the midpoint lies in \<open>[s, e]\<close> and both possible
  next intervals, \<open>[s, mid - 1]\<close> and \<open>[mid + 1, e]\<close>, are strictly shorter than \<open>[s, e]\<close>.
  So the loop ends for every input and from every state: it has returned, with the
  result of \<open>repair_loop\<close> (defined by well-founded recursion on the interval length),
  after at most as many tests of its condition as the interval is long, plus one. From
  the initial interval \<open>[0, 10^15]\<close> 51 tests are enough.
\<close>

theorem repair_loop_terminates:
  "(s \<le> e \<longrightarrow>
      s \<le> trunc_div (s + e) 2 \<and> trunc_div (s + e) 2 \<le> e
      \<and> interval_length s (trunc_div (s + e) 2 - 1) < interval_length s e
      \<and> interval_length (trunc_div (s + e) 2 + 1) e < interval_length s e)
    \<and> repair_loop_fuel (Suc (interval_length s e)) ranks cars s e ans
        = Some (repair_loop ranks cars s e ans)
    \<and> repair_loop_fuel 51 ranks cars 0 TIME_CEILING None = Some (repairCars ranks cars)"
proof -
  have 1: "s \<le> trunc_div (s + e) 2 \<and> trunc_div (s + e) 2 \<le> e
      \<and> interval_length s (trunc_div (s + e) 2 - 1) < interval_length s e
      \<and> interval_length (trunc_div (s + e) 2 + 1) e < interval_length s e" if "s \<le> e"
    using that trunc_div_2_between [OF that] by (simp add: interval_length_def)
  have "interval_length s e < 2 ^ interval_length s e" by simp
  then have 2: "repair_loop_fuel (Suc (interval_length s e)) ranks cars s e ans
        = Some (repair_loop ranks cars s e ans)"
    by (rule repair_loop_fuel_enough)
  have "interval_length 0 TIME_CEILING < 2 ^ 50"
    by (simp add: interval_length_def TIME_CEILING_def)
  then have "repair_loop_fuel (Suc 50) ranks cars 0 TIME_CEILING None
        = Some (repair_loop ranks cars 0 TIME_CEILING None)"
    by (rule repair_loop_fuel_enough)
  then have 3: "repair_loop_fuel 51 ranks cars 0 TIME_CEILING None = Some (repairCars ranks cars)"
    by (simp add: repairCars_def del: repair_loop_fuel.simps)
  from 1 2 3 show ?thesis by blast
qed

theorem repair_loop_terminates_witness:
  "interval_length 0 (trunc_div (0 + TIME_CEILING) 2 - 1) < interval_length 0 TIME_CEILING
    \<and> interval_length (trunc_div (0 + TIME_CEILING) 2 + 1) TIME_CEILING
        < interval_length 0 TIME_CEILING
    \<and> repair_loop_fuel 51 [5, 1, 8] 6 0 TIME_CEILING None = Some (repairCars [5, 1, 8] 6)"
proof -
  have le: "0 \<le> TIME_CEILING" by (simp add: TIME_CEILING_def)
  from repair_loop_terminates [of 0 TIME_CEILING "[5, 1, 8]" 6 None] le
  show ?thesis by (simp del: repair_loop_fuel.simps)
qed

text \<open>
  \<^bold>\<open>C10\<close> (non-positive requirement). As stated, for every rank list and every
  requirement \<open>\<le> 0\<close>, the claim fails: with a first rank 0 the first capacity divides by
  zero, in \<open>check\<close> and so in \<open>repairCars\<close>; and with the requirement \<^verbatim>\<open>LLONG_MIN\<close> the
  subtraction \<^verbatim>\<open>req-=c\<close> overflows.
\<close>

theorem check_nonpositive_requirement_fails:
  "check [0] 0 5 = Inl DivByZero \<and> repairCars [0] 0 = Inl DivByZero
    \<and> check [1] LLONG_MIN 1 = Inl Overflow"
proof -
  have 1: "check [0] 0 5 = Inl DivByZero" by (simp add: capacity_def ll_div_def)
  have 2: "repairCars [0] 0 = Inl DivByZero" by (rule repairCars_zero_rank)
  have w1: "worker_capacity 1 1 = 1" by code_simp
  have "capacity 1 1 = Inr (worker_capacity 1 1)" by (rule capacity_exact) simp_all
  then have "capacity 1 1 = Inr 1" by (simp only: w1)
  then have 3: "check [1] LLONG_MIN 1 = Inl Overflow"
    by (simp add: ll_sub_def in_ll_def LLONG_MIN_def LLONG_MAX_def)
  from 1 2 3 show ?thesis by (intro conjI)
qed

text \<open>
  \<^bold>\<open>C10\<close>, amended. For a rank list that is empty or starts with a positive rank, a
  time in \<open>[0, LLONG_MAX]\<close> and a requirement \<open>\<le> 0\<close> that is at least \<open>LLONG_MIN + 2^32\<close>
  (every non-positive \<^verbatim>\<open>int\<close> is), \<open>check\<close> returns true; and \<open>repairCars\<close> called with
  such a list and a non-positive \<^verbatim>\<open>int\<close> requirement returns 0.
\<close>

theorem check_nonpositive_requirement:
  assumes "0 \<le> time" "time \<le> LLONG_MAX" "req \<le> 0" "LLONG_MIN + 2 ^ 32 \<le> req"
  shows "check [] req time = Inr True
    \<and> (0 < r \<longrightarrow> check (r # ranks) req time = Inr True)
    \<and> (INT_MIN \<le> req \<longrightarrow> repairCars [] req = Inr 0)
    \<and> (0 < r \<and> INT_MIN \<le> req \<longrightarrow> repairCars (r # ranks) req = Inr 0)"
proof (intro conjI impI)
  show "check [] req time = Inr True" using assms(3) by simp
  show "check (r # ranks) req time = Inr True" if "0 < r"
    using that assms by (rule check_nonpos_req_Cons)
  show "repairCars [] req = Inr 0" using assms(3) by (rule repairCars_nonpos_Nil)
  show "repairCars (r # ranks) req = Inr 0" if "0 < r \<and> INT_MIN \<le> req"
    using that assms(3) by (intro repairCars_nonpos_Cons) simp_all
qed

theorem check_nonpositive_requirement_witness:
  "check [] (- 7) 5 = Inr True \<and> check [3, 0] (- 7) 5 = Inr True
    \<and> repairCars [] (- 7) = Inr 0 \<and> repairCars [3, 0] (- 7) = Inr 0"
proof -
  have "(0::int) \<le> 5" "5 \<le> LLONG_MAX" "(- 7::int) \<le> 0" "LLONG_MIN + 2 ^ 32 \<le> - 7"
    by (simp_all add: LLONG_MIN_def LLONG_MAX_def)
  from check_nonpositive_requirement [OF this, of 3 "[0]"] show ?thesis
    by (simp add: INT_MIN_def)
qed

end
